theory Spec2Isabelle
  imports
    Main
    "HOL-Library.Sublist"
    "HOL-Library.Char_ord"
    "HOL-Library.List_Lexorder"
    "HOL-Library.AList"
    "HOL-Library.Multiset"
begin


section \<open>Strings and paths\<close>

text \<open>
  Go strings are byte sequences; they are modelled as \<open>string\<close> (a list of \<open>char\<close>),
  compared bytewise and lexicographically as Go's \<open><\<close> on strings does.  The path
  separator is \<open>/\<close>.
\<close>

definition sep :: char where
  "sep = CHR ''/''"

text \<open>\<open>strings.Contains(s, substr)\<close>.\<close>

definition strings_Contains :: "string \<Rightarrow> string \<Rightarrow> bool" where
  "strings_Contains s substr = sublist substr s"

text \<open>
  \<open>strings.Split(s, sep)\<close> for a one-byte separator.  The empty string splits into one
  empty part, as in Go.
\<close>

fun strings_Split :: "string \<Rightarrow> char \<Rightarrow> string list" where
  "strings_Split [] c = [[]]"
| "strings_Split (x # xs) c =
     (if x = c then [] # strings_Split xs c
      else (case strings_Split xs c of
              [] \<Rightarrow> [[x]]
            | p # ps \<Rightarrow> (x # p) # ps))"

text \<open>\<open>strings.Join(parts, sep)\<close> for a one-byte separator.\<close>

fun strings_Join :: "string list \<Rightarrow> char \<Rightarrow> string" where
  "strings_Join [] c = []"
| "strings_Join [p] c = p"
| "strings_Join (p # q # ps) c = p @ c # strings_Join (q # ps) c"

text \<open>
  \<open>strings.SplitN(s, sep, 2)\<close> for a one-byte separator: the text before the first
  separator and the text after it, or the whole string alone when there is none.
\<close>

definition strings_SplitN2 :: "string \<Rightarrow> char \<Rightarrow> string list" where
  "strings_SplitN2 s c =
     (if c \<in> set s then [takeWhile (\<lambda>x. x \<noteq> c) s, tl (dropWhile (\<lambda>x. x \<noteq> c) s)]
      else [s])"

text \<open>
  \<open>strconv.Atoi\<close>: an optional sign, then one or more decimal digits; the value must fit
  Go's 64-bit \<open>int\<close>.  Every failure (\<open>err != nil\<close>) is \<open>None\<close>.
\<close>

definition digit_of :: "char \<Rightarrow> nat option" where
  "digit_of ch =
     (let n = (of_char ch :: nat) in if 48 \<le> n \<and> n \<le> 57 then Some (n - 48) else None)"

fun digits_value :: "nat \<Rightarrow> string \<Rightarrow> nat option" where
  "digits_value acc [] = Some acc"
| "digits_value acc (ch # cs) =
     (case digit_of ch of
        None \<Rightarrow> None
      | Some d \<Rightarrow> digits_value (acc * 10 + d) cs)"

definition strconv_Atoi :: "string \<Rightarrow> int option" where
  "strconv_Atoi s =
     (case s of
        [] \<Rightarrow> None
      | ch # rest \<Rightarrow>
          (let neg = (ch = CHR ''-'');
               body = (if ch = CHR ''-'' \<or> ch = CHR ''+'' then rest else s)
           in if body = [] then None
              else (case digits_value 0 body of
                      None \<Rightarrow> None
                    | Some n \<Rightarrow>
                        (let v = (if neg then - int n else int n)
                         in if - (2 ^ 63) \<le> v \<and> v < 2 ^ 63 then Some v else None))))"

text \<open>
  The path of the directory or file \<open>rel\<close> below the root \<open>base\<close>, as \<open>filepath.Join\<close>
  builds it (\<open>filepath.Walk\<close> joins each entry name to its directory's path this way).
  The empty \<open>rel\<close> is the root itself; the root \<open>/\<close> does not double its separator.
\<close>

definition filepath_Join :: "string \<Rightarrow> string \<Rightarrow> string" where
  "filepath_Join base rel =
     (if rel = [] then base
      else (if base = [sep] then [] else base) @ sep # rel)"

text \<open>
  \<open>filepath.Rel(base, targ)\<close> on the paths the walk produces: the root itself or a path
  below it.  (No other path reaches the callback; for those Go computes a path through
  \<open>..\<close>, which is not modelled.)
\<close>

definition filepath_Rel :: "string \<Rightarrow> string \<Rightarrow> string" where
  "filepath_Rel base targ =
     (if targ = base then ''.''
      else if base = [sep] then drop 1 targ
      else drop (length base + 1) targ)"

text \<open>
  \<open>filepath.Base\<close> and \<open>filepath.Dir\<close> on a clean relative path (no empty, \<open>.\<close> or
  \<open>..\<close> segment below the first), which is what \<open>filepath.Rel\<close> returns.
\<close>

definition filepath_Base :: "string \<Rightarrow> string" where
  "filepath_Base p = (if p = [] then ''.'' else last (strings_Split p sep))"

definition filepath_Dir :: "string \<Rightarrow> string" where
  "filepath_Dir p =
     (let parts = strings_Split p sep
      in if length parts \<le> 1 then ''.'' else strings_Join (butlast parts) sep)"

section \<open>Test cases\<close>

record Test =
  Name :: string
  Dir :: string
  AbsDir :: string
  Seq :: int
  Request :: string
  Response :: string
  Variables :: string
  Transform :: string

text \<open>\<open>IsValid\<close>: the test has both a request and a response file.\<close>

definition IsValid :: "Test \<Rightarrow> bool" where
  "IsValid t = (Request t \<noteq> [] \<and> Response t \<noteq> [])"

text \<open>
  \<open>mergeTest(dst, src)\<close>: every non-empty file field of \<open>src\<close> is written into \<open>dst\<close>;
  name, directory and sequence number stay those of \<open>dst\<close>.
\<close>

definition mergeTest :: "Test \<Rightarrow> Test \<Rightarrow> Test" where
  "mergeTest dst src =
     dst\<lparr> Request := (if Request src \<noteq> [] then Request src else Request dst),
          Response := (if Response src \<noteq> [] then Response src else Response dst),
          Variables := (if Variables src \<noteq> [] then Variables src else Variables dst),
          Transform := (if Transform src \<noteq> [] then Transform src else Transform dst) \<rparr>"

text \<open>
  \<open>parseTestFile(basePath, fullPath, info)\<close>; \<open>isDir\<close> is \<open>info.IsDir()\<close>.  \<open>None\<close> is
  the result \<open>(nil, false)\<close>.  \<open>testName_of\<close> and \<open>seq_of\<close> are its two steps that take the
  test name from the directory path and the sequence number from the test name.  (The
  source's replacement of an empty or one-element \<open>dirParts\<close> changes nothing: splitting
  never returns an empty slice, and the one-element case is replaced by itself.)
\<close>

definition testName_of :: "string \<Rightarrow> string" where
  "testName_of dirPath =
     (let dirParts = strings_Split dirPath sep;
          testName = last dirParts
      in if testName = [] \<and> length dirParts > 1
         then dirParts ! (length dirParts - 2) else testName)"

definition seq_of :: "string \<Rightarrow> int" where
  "seq_of testName =
     (let parts = strings_SplitN2 testName (CHR ''_'')
      in if length parts > 1
         then (case strconv_Atoi (hd parts) of Some n \<Rightarrow> n | None \<Rightarrow> - 1)
         else - 1)"

definition parseTestFile :: "string \<Rightarrow> string \<Rightarrow> bool \<Rightarrow> Test option" where
  "parseTestFile basePath fullPath isDir =
     (if isDir then None
      else if strings_Contains fullPath ''/SKIP'' then None
      else
        (let relPath = filepath_Rel basePath fullPath;
             fileName = filepath_Base relPath;
             dirPath0 = filepath_Dir relPath;
             dirPath = (if dirPath0 = ''.'' then [] else dirPath0);
             testName = testName_of dirPath;
             test = \<lparr> Name = testName, Dir = dirPath,
                      AbsDir = filepath_Join basePath dirPath,
                      Seq = seq_of testName,
                      Request = [], Response = [], Variables = [], Transform = [] \<rparr>
         in if fileName = ''request.gql'' then Some (test\<lparr> Request := fullPath \<rparr>)
            else if fileName = ''response.json'' then Some (test\<lparr> Response := fullPath \<rparr>)
            else if fileName = ''variables.json'' then Some (test\<lparr> Variables := fullPath \<rparr>)
            else if fileName = ''transform.jq'' then Some (test\<lparr> Transform := fullPath \<rparr>)
            else None))"

section \<open>Suites and discovery\<close>

text \<open>
  A \<open>Suite\<close> as the Go struct has it.  The Go map \<open>Suites\<close> holds one \<open>*Suite\<close> per key and
  every suite object is stored under exactly one key, so the key serves as the object's
  address: \<open>Children\<close>, a map to \<open>*Suite\<close>, is kept as a map to the key of the suite it
  points to.  Maps are association lists with \<open>map_of\<close> as lookup and \<open>AList.update\<close> as
  assignment.
\<close>

record Suite =
  Path :: string
  Base :: "Test option"
  Tests :: "(string \<times> string) list"
  Children :: "(string \<times> string) list"
  refs :: int

type_synonym Suites = "(string \<times> Suite) list"

datatype error =
  SuiteNotFound string
| ParentNotFound string string

text \<open>\<open>getParentPath\<close>.\<close>

definition getParentPath :: "string \<Rightarrow> string" where
  "getParentPath path =
     (if path = [] then []
      else (let parts = strings_Split path sep
            in if length parts \<le> 1 then []
               else strings_Join (butlast parts) sep))"

text \<open>
  The directory tree that \<open>filepath.Walk\<close> reads: a file, or a directory with its entries
  in the order the walk visits them (\<open>Walk\<close> sorts the names of a directory).  \<open>Walk\<close>
  lists the calls of the walk function: the path and \<open>info.IsDir()\<close>, a directory before
  its contents.  Every entry is readable; read errors of the file system are outside the
  model.
\<close>

datatype fsnode =
  FsFile
| FsDir "(string \<times> fsnode) list"

fun Walk :: "string \<Rightarrow> fsnode \<Rightarrow> (string \<times> bool) list" where
  "Walk path FsFile = [(path, False)]"
| "Walk path (FsDir entries) =
     (path, True) # concat (map (\<lambda>e. Walk (filepath_Join path (fst e)) (snd e)) entries)"

text \<open>
  The walk function of \<open>DiscoverTests\<close>, one call: \<open>visit absPath (path, isDir) suites\<close>
  returns the error or the updated map.  A suite is mutated through its pointer, which the
  model does by rewriting the map at the suite's key.
\<close>

definition modify :: "string \<Rightarrow> (Suite \<Rightarrow> Suite) \<Rightarrow> Suites \<Rightarrow> Suites" where
  "modify k f suites =
     (case map_of suites k of
        None \<Rightarrow> suites
      | Some suite \<Rightarrow> AList.update k (f suite) suites)"

definition visit :: "string \<Rightarrow> string \<times> bool \<Rightarrow> Suites \<Rightarrow> error + Suites" where
  "visit absPath ev suites =
     (let path = fst ev; isDir = snd ev;
          relPath0 = filepath_Rel absPath path;
          relPath = (if relPath0 = ''.'' then [] else relPath0)
      in if isDir
         then Inr (AList.update relPath
                \<lparr> Path = relPath, Base = None, Tests = [], Children = [], refs = 0 \<rparr> suites)
         else
           (case parseTestFile absPath path isDir of
              None \<Rightarrow> Inr suites
            | Some test \<Rightarrow>
                (case map_of suites (Dir test) of
                   None \<Rightarrow> Inl (SuiteNotFound (Dir test))
                 | Some suite \<Rightarrow>
                     (let isNew = (Base suite = None);
                          base = (case Base suite of
                                    None \<Rightarrow> test
                                  | Some b \<Rightarrow> mergeTest b test);
                          suites1 = AList.update (Dir test) (suite\<lparr> Base := Some base \<rparr>) suites;
                          parentPath = getParentPath (Path suite)
                      in if Path suite \<noteq> []
                         then
                           (case map_of suites1 parentPath of
                              None \<Rightarrow> Inl (ParentNotFound parentPath (Path suite))
                            | Some parent \<Rightarrow>
                                (let suites2 =
                                       (if isNew
                                        then modify parentPath (\<lambda>p. p\<lparr> refs := refs p + 1 \<rparr>) suites1
                                        else suites1)
                                 in if Seq base \<ge> 0
                                    then
                                      (let suites3 =
                                             modify parentPath
                                               (\<lambda>p. p\<lparr> Tests := AList.update (Name test) (Path suite) (Tests p),
                                                       Children := AList.update (Name test) (Dir test) (Children p) \<rparr>)
                                               suites2
                                       in if isNew
                                          then Inr (modify (Dir test) (\<lambda>c. c\<lparr> refs := refs c + 1 \<rparr>) suites3)
                                          else Inr suites3)
                                    else Inr suites2))
                         else Inr suites1))))"

fun walk_all :: "string \<Rightarrow> (string \<times> bool) list \<Rightarrow> Suites \<Rightarrow> error + Suites" where
  "walk_all absPath [] suites = Inr suites"
| "walk_all absPath (ev # evs) suites =
     (case visit absPath ev suites of
        Inl e \<Rightarrow> Inl e
      | Inr suites' \<Rightarrow> walk_all absPath evs suites')"

text \<open>The loop after the walk: suites with no base test and no child tests are deleted.\<close>

definition prune :: "Suites \<Rightarrow> Suites" where
  "prune suites = filter (\<lambda>(path, suite). \<not> (Base suite = None \<and> length (Tests suite) = 0)) suites"

text \<open>
  \<open>DiscoverTests\<close>, from the absolute path of the suite root (the result of
  \<open>filepath.Abs\<close>) and the tree found there.
\<close>

definition DiscoverTests :: "string \<Rightarrow> fsnode \<Rightarrow> error + Suites" where
  "DiscoverTests absPath tree =
     (case walk_all absPath (Walk absPath tree) [] of
        Inl e \<Rightarrow> Inl e
      | Inr suites \<Rightarrow> Inr (prune suites))"

text \<open>\<open>RunnableSuitePaths\<close>; \<open>sort\<close> is \<open>sort.Strings\<close>.\<close>

definition RunnableSuitePaths :: "Suites \<Rightarrow> string list" where
  "RunnableSuitePaths s =
     sort (map fst (filter (\<lambda>(path, suite). \<not> (refs suite > 0 \<and> length (Tests suite) = 0)) s))"

section \<open>Ordering\<close>

text \<open>The comparison handed to \<open>sort.Slice\<close> in \<open>runWithVisited\<close>.\<close>

definition less_test :: "Test \<Rightarrow> Test \<Rightarrow> bool" where
  "less_test a b =
     (if Seq a \<ge> 0 \<and> Seq b \<ge> 0 then Seq a < Seq b
      else if Seq a \<ge> 0 then True
      else if Seq b \<ge> 0 then False
      else Name a < Name b)"

text \<open>
  \<open>sort.Slice\<close> as Go's insertion sort, which is what the library runs on a slice of at
  most twelve elements: each element in turn moves left while it is less than its left
  neighbour.  \<open>bubble\<close> takes the sorted prefix in reverse, nearest neighbour first.  On a
  longer slice Go sorts by pattern-defeating quicksort, whose result is also a permutation
  in which no element is less than an earlier one; it can differ from this one only in
  the order of elements neither of which is less than the other.
\<close>

fun bubble :: "('a \<Rightarrow> 'a \<Rightarrow> bool) \<Rightarrow> 'a \<Rightarrow> 'a list \<Rightarrow> 'a list" where
  "bubble lt x [] = [x]"
| "bubble lt x (y # ys) = (if lt x y then y # bubble lt x ys else x # y # ys)"

definition sort_Slice :: "('a \<Rightarrow> 'a \<Rightarrow> bool) \<Rightarrow> 'a list \<Rightarrow> 'a list" where
  "sort_Slice lt xs = rev (foldl (\<lambda>acc x. bubble lt x acc) [] xs)"

text \<open>
  The loop that collects the child tests.  Go leaves the order in which \<open>range\<close> walks a
  map unspecified; \<open>rng\<close> is that order, a function from the entries of the map to the
  sequence in which the loop meets them.
\<close>

definition childTests ::
  "((string \<times> string) list \<Rightarrow> (string \<times> string) list) \<Rightarrow> Suites \<Rightarrow> Suite \<Rightarrow> int \<Rightarrow> Test list" where
  "childTests rng s suite maxSeq =
     List.map_filter
       (\<lambda>entry. case map_of s (snd entry) of
                  None \<Rightarrow> None
                | Some child \<Rightarrow>
                    (case Base child of
                       None \<Rightarrow> None
                     | Some b \<Rightarrow>
                         if \<not> IsValid b then None
                         else if maxSeq \<ge> 0 \<and> Seq b \<ge> 0 \<and> Seq b > maxSeq then None
                         else Some b))
       (rng (Tests suite))"

lemma strings_Split_nonempty: "strings_Split s c \<noteq> []"
  by (induction s) (auto split: list.splits)

lemma strings_Join_Split: "strings_Join (strings_Split s c) c = s"
proof (induction s)
  case Nil
  then show ?case by simp
next
  case (Cons x xs)
  show ?case
  proof (cases "strings_Split xs c")
    case Nil
    then show ?thesis using strings_Split_nonempty[of xs c] by simp
  next
    case (Cons p ps)
    with Cons.IH show ?thesis by (cases ps) auto
  qed
qed

lemma strings_Join_snoc:
  "ps \<noteq> [] \<Longrightarrow> strings_Join (ps @ [q]) c = strings_Join ps c @ c # q"
  by (induction ps c rule: strings_Join.induct) auto

lemma getParentPath_prefix:
  assumes "getParentPath p \<noteq> []"
  shows "\<exists>q. p = getParentPath p @ sep # q"
proof -
  let ?parts = "strings_Split p sep"
  from assms have len: "length ?parts > 1" and gp: "getParentPath p = strings_Join (butlast ?parts) sep"
    by (auto simp: getParentPath_def Let_def split: if_splits)
  then have bne: "butlast ?parts \<noteq> []"
    by (cases ?parts) (auto split: if_splits)
  have "?parts = butlast ?parts @ [last ?parts]"
    using strings_Split_nonempty by simp
  then have "strings_Join ?parts sep = strings_Join (butlast ?parts) sep @ sep # last ?parts"
    using strings_Join_snoc[OF bne] by metis
  then have "p = getParentPath p @ sep # last ?parts"
    by (simp only: strings_Join_Split gp)
  then show ?thesis by (rule exI)
qed

lemma getParentPath_shorter:
  "getParentPath p \<noteq> [] \<Longrightarrow> length (getParentPath p) < length p"
  using getParentPath_prefix[of p] by (metis length_append length_Cons less_add_Suc1 add_Suc_right)

text \<open>
  \<open>runWithVisited\<close>.  The callback \<open>fn\<close> appends to the list of emitted tests, so the state
  threaded through the recursion is the \<open>visited\<close> set and that list.
\<close>

function runWithVisited ::
  "((string \<times> string) list \<Rightarrow> (string \<times> string) list) \<Rightarrow> Suites \<Rightarrow> string \<Rightarrow> int
     \<Rightarrow> string set \<times> Test list \<Rightarrow> string set \<times> Test list" where
  "runWithVisited rng s suitePath maxSeq (visited, emitted) =
     (if suitePath \<in> visited then (visited, emitted)
      else
        (case map_of s suitePath of
           None \<Rightarrow> (visited, emitted)
         | Some suite \<Rightarrow>
             (let st1 = (if getParentPath suitePath \<noteq> []
                         then runWithVisited rng s (getParentPath suitePath) (- 1) (visited, emitted)
                         else (visited, emitted));
                  visited2 = insert suitePath (fst st1);
                  emitted2 = (case Base suite of
                                None \<Rightarrow> snd st1
                              | Some b \<Rightarrow> if IsValid b then snd st1 @ [b] else snd st1)
              in (visited2, emitted2 @ sort_Slice less_test (childTests rng s suite maxSeq)))))"
  by pat_completeness auto
termination
  by (relation "measure (\<lambda>(rng, s, suitePath, maxSeq, st). length suitePath)")
     (auto simp: getParentPath_shorter)

text \<open>\<open>run\<close> with the collecting callback of \<open>GetOrderedTests\<close>, and \<open>GetOrderedTests\<close>.\<close>

definition run ::
  "((string \<times> string) list \<Rightarrow> (string \<times> string) list) \<Rightarrow> Suites \<Rightarrow> string \<Rightarrow> int \<Rightarrow> Test list" where
  "run rng s suitePath maxSeq = snd (runWithVisited rng s suitePath maxSeq ({}, []))"

definition GetOrderedTests ::
  "((string \<times> string) list \<Rightarrow> (string \<times> string) list) \<Rightarrow> Suites \<Rightarrow> string \<Rightarrow> Test list" where
  "GetOrderedTests rng s suitePath = run rng s suitePath (- 1)"

section \<open>Notions used in the statements\<close>

text \<open>
  \<open>is_ancestor a p\<close>: the directory \<open>a\<close> is a proper ancestor of the directory \<open>p\<close>, both
  given by their relative paths; the root (the empty path) is an ancestor of every other
  directory.  \<open>chain_present s a p\<close>: \<open>a\<close> and every directory between \<open>a\<close> and \<open>p\<close> is a
  key of the forest \<open>s\<close>.
\<close>

definition is_ancestor :: "string \<Rightarrow> string \<Rightarrow> bool" where
  "is_ancestor a p = (if a = [] then p \<noteq> [] else prefix (a @ [sep]) p)"

definition chain_present :: "Suites \<Rightarrow> string \<Rightarrow> string \<Rightarrow> bool" where
  "chain_present s a p =
     list_all (\<lambda>c. (c = a \<or> is_ancestor a c) \<and> is_ancestor c p \<longrightarrow> map_of s c \<noteq> None)
       (prefixes p)"

text \<open>What \<open>runWithVisited\<close> emits for the suite itself: its valid base test, then its
  sorted child tests.\<close>

definition own_tests ::
  "((string \<times> string) list \<Rightarrow> (string \<times> string) list) \<Rightarrow> Suites \<Rightarrow> Suite \<Rightarrow> int \<Rightarrow> Test list" where
  "own_tests rng s suite maxSeq =
     (case Base suite of None \<Rightarrow> [] | Some b \<Rightarrow> if IsValid b then [b] else [])
     @ sort_Slice less_test (childTests rng s suite maxSeq)"

text \<open>
  \<open>no_ties s\<close>: in every suite of the forest, any two different valid child tests are
  ordered by the comparison, one way or the other (so no two sequenced children share a
  sequence number).
\<close>

definition no_ties :: "Suites \<Rightarrow> bool" where
  "no_ties s =
     list_all (\<lambda>entry.
        list_all (\<lambda>a. list_all (\<lambda>b. a = b \<or> less_test a b \<or> less_test b a)
                         (childTests id s (snd entry) (- 1)))
                 (childTests id s (snd entry) (- 1))) s"

text \<open>
  \<open>skipped p\<close>: the relative path \<open>p\<close> has a segment that is \<open>SKIP\<close> or begins with \<open>SKIP\<close>,
  so \<open>p\<close> is such a directory or lies beneath one.  \<open>clean_case t\<close>: no file path of the
  test case contains \<open>/SKIP\<close>.
\<close>

definition skipped :: "string \<Rightarrow> bool" where
  "skipped p = list_ex (prefix ''SKIP'') (strings_Split p sep)"

definition clean_case :: "Test \<Rightarrow> bool" where
  "clean_case t =
     (\<not> strings_Contains (Request t) ''/SKIP'' \<and> \<not> strings_Contains (Response t) ''/SKIP''
      \<and> \<not> strings_Contains (Variables t) ''/SKIP'' \<and> \<not> strings_Contains (Transform t) ''/SKIP'')"

text \<open>
  The invariant of the walk, for the suite stored under the key \<open>k\<close>: its \<open>Path\<close> is its key;
  if it has a base test or a child test, the path of its directory does not contain
  \<open>/SKIP\<close>; its base test is clean and carries the directory's path and the sequence
  number of the directory's name; every registered child path is that of a directory
  with a sequence number whose parent path is \<open>k\<close>, stored under that directory's name;
  and the child map has one entry per key.
\<close>

definition node_ok :: "string \<Rightarrow> string \<Rightarrow> Suite \<Rightarrow> bool" where
  "node_ok base k suite =
     (Path suite = k
      \<and> (Base suite \<noteq> None \<or> Tests suite \<noteq> [] \<longrightarrow> \<not> strings_Contains (filepath_Join base k) ''/SKIP'')
      \<and> (\<forall>b. Base suite = Some b \<longrightarrow> clean_case b \<and> Seq b = seq_of (testName_of k) \<and> Dir b = k)
      \<and> (\<forall>e \<in> set (Tests suite).
            0 \<le> seq_of (testName_of (snd e)) \<and> getParentPath (snd e) = k \<and> snd e \<noteq> []
            \<and> fst e = testName_of (snd e))
      \<and> distinct (map fst (Tests suite)))"

definition forest_ok :: "string \<Rightarrow> Suites \<Rightarrow> bool" where
  "forest_ok base s = (distinct (map fst s) \<and> (\<forall>e \<in> set s. node_ok base (fst e) (snd e)))"

text \<open>
  The names a directory can hold: not empty, without a separator, and neither \<open>.\<close> nor
  \<open>..\<close>.  \<open>wf_tree\<close>: every entry of every directory of the tree has such a name.
  \<open>child_path d n\<close> is the relative path of the entry \<open>n\<close> of the directory \<open>d\<close>.
\<close>

definition wf_name :: "string \<Rightarrow> bool" where
  "wf_name n = (n \<noteq> [] \<and> sep \<notin> set n \<and> n \<noteq> ''.'' \<and> n \<noteq> ''..'')"

fun wf_tree :: "fsnode \<Rightarrow> bool" where
  "wf_tree FsFile = True"
| "wf_tree (FsDir entries) = (\<forall>e \<in> set entries. wf_name (fst e) \<and> wf_tree (snd e))"

definition child_path :: "string \<Rightarrow> string \<Rightarrow> string" where
  "child_path d n = (if d = [] then n else d @ sep # n)"

text \<open>
  \<open>ready s rel\<close>: the walk may enter \<open>rel\<close>, because it is the root or because the directory
  that holds it, and that directory's parent, have their nodes in \<open>s\<close> already.
\<close>

definition ready :: "Suites \<Rightarrow> string \<Rightarrow> bool" where
  "ready s rel =
     (rel = [] \<or>
      (\<exists>d n. rel = child_path d n \<and> wf_name n \<and> d \<noteq> ''.'' \<and> d \<in> dom (map_of s)
             \<and> (d \<noteq> [] \<longrightarrow> getParentPath d \<in> dom (map_of s))))"





section \<open>Example trees and test cases\<close>

text \<open>
  The suite of the scenario: a root with fixtures, the sequenced children \<open>001_First\<close> and
  \<open>002_Second\<close> and the unsequenced child \<open>Extra\<close>; a suite nested two levels deep; and
  the forest that \<open>DiscoverTests\<close> returns for a tree.
\<close>

definition fixtures :: "(string \<times> fsnode) list" where
  "fixtures = [(''request.gql'', FsFile), (''response.json'', FsFile)]"

definition scenario_tree :: fsnode where
  "scenario_tree =
     FsDir ([(''001_First'', FsDir fixtures), (''002_Second'', FsDir fixtures),
             (''Extra'', FsDir fixtures)] @ fixtures)"

definition nested_tree :: fsnode where
  "nested_tree = FsDir ((''a'', FsDir ((''001_B'', FsDir fixtures) # fixtures)) # fixtures)"

text \<open>
  A tree whose directory \<open>a/b\<close> holds no fixture and only the unsequenced child \<open>c\<close>, so that
  \<open>a/b\<close> is pruned after the walk (as is the root) while \<open>a\<close> and \<open>a/b/c\<close> stay in the forest.
\<close>

definition broken_tree :: fsnode where
  "broken_tree = FsDir [(''a'', FsDir ((''b'', FsDir [(''c'', FsDir fixtures)]) # fixtures))]"

text \<open>A root whose children \<open>01_x\<close> and \<open>1_y\<close> both carry the sequence number 1.\<close>

definition tied_tree :: fsnode where
  "tied_tree = FsDir [(''01_x'', FsDir fixtures), (''1_y'', FsDir fixtures)]"

text \<open>
  A suite in the shape of the README's example: a root with fixtures whose children are
  all unsequenced.
\<close>

definition errors_tree :: fsnode where
  "errors_tree =
     FsDir ([(''BAD_REQUEST'', FsDir fixtures), (''DATE_PARSE_ERROR'', FsDir fixtures)] @ fixtures)"

text \<open>A tree with an excluded directory that holds fixtures of its own and a child.\<close>

definition skip_tree :: fsnode where
  "skip_tree =
     FsDir ([(''001_First'', FsDir fixtures),
             (''SKIP_old'', FsDir ((''001_q'', FsDir fixtures) # fixtures))] @ fixtures)"

definition forest_of :: "string \<Rightarrow> fsnode \<Rightarrow> Suites" where
  "forest_of absPath tree = (case DiscoverTests absPath tree of Inl e \<Rightarrow> [] | Inr f \<Rightarrow> f)"

text \<open>The test cases of the example trees under the root \<open>/r\<close>.\<close>

definition root_case :: Test where
  "root_case =
     \<lparr> Name = [], Dir = [], AbsDir = ''/r'', Seq = - 1, Request = ''/r/request.gql'',
       Response = ''/r/response.json'', Variables = [], Transform = [] \<rparr>"

definition case_at :: "string \<Rightarrow> string \<Rightarrow> int \<Rightarrow> Test" where
  "case_at d n k =
     \<lparr> Name = n, Dir = d, AbsDir = ''/r/'' @ d, Seq = k,
       Request = ''/r/'' @ d @ ''/request.gql'',
       Response = ''/r/'' @ d @ ''/response.json'', Variables = [], Transform = [] \<rparr>"

definition request_fragment :: Test where
  "request_fragment =
     \<lparr> Name = ''001_First'', Dir = ''001_First'', AbsDir = ''/r/001_First'', Seq = 1,
       Request = ''/r/001_First/request.gql'', Response = [], Variables = [], Transform = [] \<rparr>"


section \<open>Merging and naming\<close>

lemma strings_Split_append_sep:
  "strings_Split (d @ c # f) c = strings_Split d c @ strings_Split f c"
  by (induction d) (auto split: list.splits simp: strings_Split_nonempty)

lemma strings_Split_no_sep: "c \<notin> set f \<Longrightarrow> strings_Split f c = [f]"
  by (induction f) auto

lemma filepath_Rel_Join: "rel \<noteq> [] \<Longrightarrow> filepath_Rel base (filepath_Join base rel) = rel"
  by (auto simp: filepath_Rel_def filepath_Join_def)

lemma filepath_Dir_file:
  "sep \<notin> set f \<Longrightarrow>
   filepath_Dir (if d = [] then f else d @ sep # f) = (if d = [] then ''.'' else d)"
  by (auto simp: filepath_Dir_def strings_Split_append_sep strings_Split_no_sep
        strings_Join_Split strings_Split_nonempty Suc_le_eq)

text \<open>
  Claim C9, as amended.  The name of a discovered test case is the last segment of the
  relative path of its directory, unchanged: a numeric prefix stays in the name, and the
  root's test case has the empty name.  Here \<open>d\<close> is the relative path of the directory
  and \<open>f\<close> the name of the file in it.
\<close>

theorem parseTestFile_Name:
  assumes "parseTestFile base (filepath_Join base (if d = [] then f else d @ sep # f)) False = Some t"
    and "sep \<notin> set f" and "f \<noteq> []" and "d \<noteq> ''.''"
    and "d = [] \<or> last (strings_Split d sep) \<noteq> []"
  shows "Name t = last (strings_Split d sep) \<and> Dir t = d"
proof -
  let ?rel = "if d = [] then f else d @ sep # f"
  have rel: "filepath_Rel base (filepath_Join base ?rel) = ?rel"
    using assms(3) by (intro filepath_Rel_Join) auto
  have dir: "(if filepath_Dir ?rel = ''.'' then [] else filepath_Dir ?rel) = d"
    using assms(2,4) filepath_Dir_file[OF assms(2), of d] by auto
  have tn: "testName_of d = last (strings_Split d sep)"
    using assms(5) by (auto simp: testName_of_def Let_def)
  from assms(1) show ?thesis
    unfolding parseTestFile_def Let_def rel dir tn
    by (auto split: if_splits)
qed

theorem parseTestFile_Name_witness:
  "parseTestFile ''/r''
      (filepath_Join ''/r'' (if ''a/001_First'' = [] then ''request.gql''
                             else ''a/001_First'' @ sep # ''request.gql'')) False
     = Some (request_fragment\<lparr> Dir := ''a/001_First'', AbsDir := ''/r/a/001_First'',
               Request := ''/r/a/001_First/request.gql'' \<rparr>)
   \<and> sep \<notin> set ''request.gql'' \<and> ''request.gql'' \<noteq> [] \<and> ''a/001_First'' \<noteq> ''.''
   \<and> last (strings_Split ''a/001_First'' sep) = ''001_First''
   \<and> Name (request_fragment\<lparr> Dir := ''a/001_First'', AbsDir := ''/r/a/001_First'',
               Request := ''/r/a/001_First/request.gql'' \<rparr>) = ''001_First''"
proof -
  have p: "parseTestFile ''/r''
      (filepath_Join ''/r'' (if ''a/001_First'' = [] then ''request.gql''
                             else ''a/001_First'' @ sep # ''request.gql'')) False
     = Some (request_fragment\<lparr> Dir := ''a/001_First'', AbsDir := ''/r/a/001_First'',
               Request := ''/r/a/001_First/request.gql'' \<rparr>)"
    by code_simp
  have h: "sep \<notin> set ''request.gql''" "''request.gql'' \<noteq> []" "''a/001_First'' \<noteq> ''.''"
    by (simp_all add: sep_def)
  have l: "last (strings_Split ''a/001_First'' sep) = ''001_First''"
    by code_simp
  from parseTestFile_Name[OF p h] l have "Name (request_fragment\<lparr> Dir := ''a/001_First'',
      AbsDir := ''/r/a/001_First'', Request := ''/r/a/001_First/request.gql'' \<rparr>) = ''001_First''"
    by simp
  with p h l show ?thesis by blast
qed

text \<open>
  Against claim C9 as stated: the test case found in the directory \<open>001_First\<close> is named
  \<open>001_First\<close>, not \<open>First\<close>.
\<close>

theorem parseTestFile_Name_counterexample:
  "map_option Name (parseTestFile ''/r'' ''/r/001_First/request.gql'' False) = Some ''001_First''
   \<and> map_option Name (parseTestFile ''/r'' ''/r/001_First/request.gql'' False) \<noteq> Some ''First''"
  by code_simp

section \<open>Ordering: what one invocation emits\<close>

lemma mset_bubble: "mset (bubble lt x ys) = add_mset x (mset ys)"
  by (induction ys) auto

lemma mset_foldl_bubble:
  "mset (foldl (\<lambda>acc x. bubble lt x acc) acc xs) = mset acc + mset xs"
  by (induction xs arbitrary: acc) (auto simp: mset_bubble)

lemma mset_sort_Slice: "mset (sort_Slice lt xs) = mset xs"
  by (simp add: sort_Slice_def mset_foldl_bubble)

lemma set_sort_Slice: "set (sort_Slice lt xs) = set xs"
  using mset_sort_Slice[of lt xs] by (metis set_mset_mset)

lemma set_map_filter: "set (List.map_filter f xs) = {y. \<exists>x \<in> set xs. f x = Some y}"
  by (induction xs) (auto split: option.splits)

lemma childTests_valid: "t \<in> set (childTests rng s suite m) \<Longrightarrow> IsValid t"
  by (auto simp: childTests_def set_map_filter split: option.splits if_splits)

lemma run_missing: "map_of s p = None \<Longrightarrow> run rng s p m = []"
  by (simp add: run_def runWithVisited.simps[of rng s p])

lemma run_unfold:
  assumes "map_of s p = Some suite"
  shows "run rng s p m =
           (if getParentPath p \<noteq> [] then run rng s (getParentPath p) (- 1) else [])
           @ own_tests rng s suite m"
  unfolding run_def
  apply (subst runWithVisited.simps)
  apply (simp only: assms empty_iff if_False option.case Let_def fst_conv snd_conv own_tests_def)
  apply (cases "Base suite")
   apply (simp_all only: option.case split: if_splits)
   apply simp_all
  done

lemma strings_Join_append:
  "xs \<noteq> [] \<Longrightarrow> ys \<noteq> [] \<Longrightarrow> strings_Join (xs @ ys) c = strings_Join xs c @ c # strings_Join ys c"
  by (induction xs c rule: strings_Join.induct) (auto simp: neq_Nil_conv)

lemma is_ancestor_prefix: "is_ancestor c p \<Longrightarrow> prefix c p"
  by (auto simp: is_ancestor_def prefix_def split: if_splits)

lemma is_ancestor_trans: "is_ancestor a b \<Longrightarrow> is_ancestor b c \<Longrightarrow> is_ancestor a c"
  by (auto simp: is_ancestor_def prefix_def split: if_splits)

lemma is_ancestor_parent: "getParentPath p \<noteq> [] \<Longrightarrow> is_ancestor (getParentPath p) p"
  using getParentPath_prefix[of p] by (auto simp: is_ancestor_def prefix_def)

lemma ancestor_via_parent:
  assumes "is_ancestor a p" and "a \<noteq> []"
  shows "getParentPath p \<noteq> [] \<and> (a = getParentPath p \<or> is_ancestor a (getParentPath p))"
proof -
  from assms obtain q where p: "p = a @ sep # q"
    by (auto simp: is_ancestor_def prefix_def)
  let ?A = "strings_Split a sep" and ?Q = "strings_Split q sep"
  have sp: "strings_Split p sep = ?A @ ?Q" by (simp add: p strings_Split_append_sep)
  have ne: "?A \<noteq> []" "?Q \<noteq> []" by (simp_all add: strings_Split_nonempty)
  then have len: "\<not> length (?A @ ?Q) \<le> 1" by (cases ?A; cases ?Q) auto
  have gp: "getParentPath p = strings_Join (?A @ butlast ?Q) sep"
    using len ne by (simp add: getParentPath_def p Let_def sp[unfolded p] butlast_append)
  show ?thesis
  proof (cases "butlast ?Q = []")
    case True
    then show ?thesis using gp assms(2) by (simp add: strings_Join_Split)
  next
    case False
    then have "getParentPath p = a @ sep # strings_Join (butlast ?Q) sep"
      using gp ne by (simp add: strings_Join_append strings_Join_Split)
    then show ?thesis using assms(2) by (auto simp: is_ancestor_def)
  qed
qed

lemma chain_present_iff:
  "chain_present s a p \<longleftrightarrow> (\<forall>c. (c = a \<or> is_ancestor a c) \<and> is_ancestor c p \<longrightarrow> map_of s c \<noteq> None)"
  unfolding chain_present_def list_all_iff
  using is_ancestor_prefix by (auto simp: in_set_prefixes)

lemma own_tests_base: "Base suite = Some b \<Longrightarrow> IsValid b \<Longrightarrow> own_tests rng s suite m = b # sort_Slice less_test (childTests rng s suite m)"
  by (simp add: own_tests_def)

lemma ancestor_in_run:
  assumes "a \<noteq> []" and "map_of s a = Some sa" and "Base sa = Some ba" and "IsValid ba"
  shows "c = a \<or> is_ancestor a c \<Longrightarrow>
         (\<And>c'. (c' = a \<or> is_ancestor a c') \<Longrightarrow> (c' = c \<or> is_ancestor c' c) \<Longrightarrow> map_of s c' \<noteq> None) \<Longrightarrow>
         ba \<in> set (run rng s c m)"
proof (induction c arbitrary: m rule: measure_induct_rule[of length])
  case (less c)
  show ?case
  proof (cases "c = a")
    case True
    then show ?thesis
      by (simp add: run_unfold[OF assms(2)] own_tests_base[OF assms(3,4)])
  next
    case False
    with less.prems(1) have anc: "is_ancestor a c" by simp
    from less.prems(2)[of c] anc obtain sc where sc: "map_of s c = Some sc" by auto
    from ancestor_via_parent[OF anc assms(1)]
    have pne: "getParentPath c \<noteq> []"
      and pa: "getParentPath c = a \<or> is_ancestor a (getParentPath c)" by auto
    have shorter: "length (getParentPath c) < length c"
      using pne by (rule getParentPath_shorter)
    have "ba \<in> set (run rng s (getParentPath c) (- 1))"
    proof (rule less.IH[OF shorter pa])
      fix c' assume 1: "c' = a \<or> is_ancestor a c'" and 2: "c' = getParentPath c \<or> is_ancestor c' (getParentPath c)"
      from 2 have "is_ancestor c' c"
        using is_ancestor_parent[OF pne] is_ancestor_trans by blast
      with 1 show "map_of s c' \<noteq> None" using less.prems(2) by blast
    qed
    then show ?thesis using pne by (simp add: run_unfold[OF sc])
  qed
qed

lemma own_tests_valid: "t \<in> set (own_tests rng s suite m) \<Longrightarrow> IsValid t"
  by (auto simp: own_tests_def set_sort_Slice childTests_valid split: option.splits if_splits)

lemma run_valid: "t \<in> set (run rng s p m) \<Longrightarrow> IsValid t"
proof (induction p arbitrary: m t rule: measure_induct_rule[of length])
  case (less p)
  show ?case
  proof (cases "map_of s p")
    case None
    with less.prems show ?thesis by (simp add: run_missing)
  next
    case (Some suite)
    from less.prems have "t \<in> set (own_tests rng s suite m) \<or>
        (getParentPath p \<noteq> [] \<and> t \<in> set (run rng s (getParentPath p) (- 1)))"
      by (auto simp: run_unfold[OF Some] split: if_splits)
    then show ?thesis
    proof
      assume "t \<in> set (own_tests rng s suite m)"
      then show ?thesis by (rule own_tests_valid)
    next
      assume a: "getParentPath p \<noteq> [] \<and> t \<in> set (run rng s (getParentPath p) (- 1))"
      then have "length (getParentPath p) < length p" by (simp add: getParentPath_shorter)
      from less.IH[OF this] a show ?thesis by blast
    qed
  qed
qed

text \<open>
  Claim C1, as amended.  For a start path with a valid base case, the valid base case of
  every ancestor directory other than the root appears in the output before the start
  suite's own base case (the whole ordering of the parent is emitted first), provided that
  ancestor and every directory between it and the start path is a key of the forest.  The
  root's base case is emitted only when the start path is the root itself, and the
  expansion of ancestors stops at the first directory that is not in the forest.
\<close>

theorem run_ancestors_first:
  assumes "map_of s p = Some sp" and "Base sp = Some b" and "IsValid b"
    and "a \<noteq> []" and "is_ancestor a p" and "chain_present s a p"
    and "map_of s a = Some sa" and "Base sa = Some ba" and "IsValid ba"
  shows "\<exists>pre post. run rng s p m = pre @ b # post \<and> ba \<in> set pre"
proof -
  from ancestor_via_parent[OF assms(5,4)]
  have pne: "getParentPath p \<noteq> []"
    and pa: "getParentPath p = a \<or> is_ancestor a (getParentPath p)" by auto
  have "ba \<in> set (run rng s (getParentPath p) (- 1))"
  proof (rule ancestor_in_run[OF assms(4,7,8,9) pa])
    fix c' assume 1: "c' = a \<or> is_ancestor a c'"
      and 2: "c' = getParentPath p \<or> is_ancestor c' (getParentPath p)"
    from 2 have "is_ancestor c' p"
      using is_ancestor_parent[OF pne] is_ancestor_trans by blast
    with 1 show "map_of s c' \<noteq> None" using assms(6) by (auto simp: chain_present_iff)
  qed
  moreover have "run rng s p m =
      run rng s (getParentPath p) (- 1) @ b # sort_Slice less_test (childTests rng s sp m)"
    using pne by (simp add: run_unfold[OF assms(1)] own_tests_base[OF assms(2,3)])
  ultimately show ?thesis by blast
qed

theorem run_ancestors_first_witness:
  "map_option Base (map_of (forest_of ''/r'' nested_tree) ''a/001_B'')
       = Some (Some (case_at ''a/001_B'' ''001_B'' 1))
   \<and> IsValid (case_at ''a/001_B'' ''001_B'' 1)
   \<and> ''a'' \<noteq> [] \<and> is_ancestor ''a'' ''a/001_B''
   \<and> chain_present (forest_of ''/r'' nested_tree) ''a'' ''a/001_B''
   \<and> map_option Base (map_of (forest_of ''/r'' nested_tree) ''a'')
       = Some (Some (case_at ''a'' ''a'' (- 1)))
   \<and> IsValid (case_at ''a'' ''a'' (- 1))
   \<and> (\<exists>pre post. run id (forest_of ''/r'' nested_tree) ''a/001_B'' 0
          = pre @ case_at ''a/001_B'' ''001_B'' 1 # post
        \<and> case_at ''a'' ''a'' (- 1) \<in> set pre)"
proof -
  obtain sp where sp: "map_of (forest_of ''/r'' nested_tree) ''a/001_B'' = Some sp"
      "Base sp = Some (case_at ''a/001_B'' ''001_B'' 1)"
  proof -
    have "map_option Base (map_of (forest_of ''/r'' nested_tree) ''a/001_B'')
        = Some (Some (case_at ''a/001_B'' ''001_B'' 1))" by code_simp
    then show ?thesis using that by auto
  qed
  obtain sa where sa: "map_of (forest_of ''/r'' nested_tree) ''a'' = Some sa"
      "Base sa = Some (case_at ''a'' ''a'' (- 1))"
  proof -
    have "map_option Base (map_of (forest_of ''/r'' nested_tree) ''a'')
        = Some (Some (case_at ''a'' ''a'' (- 1)))" by code_simp
    then show ?thesis using that by auto
  qed
  have v: "IsValid (case_at ''a/001_B'' ''001_B'' 1)" "IsValid (case_at ''a'' ''a'' (- 1))"
    by (simp_all add: IsValid_def case_at_def)
  have a: "''a'' \<noteq> []" "is_ancestor ''a'' ''a/001_B''"
    by (simp_all add: is_ancestor_def sep_def)
  have c: "chain_present (forest_of ''/r'' nested_tree) ''a'' ''a/001_B''"
    by code_simp
  from run_ancestors_first[OF sp v(1) a c sa v(2), of id 0] sp sa v a c
  show ?thesis by simp
qed

text \<open>
  Against claim C1 as stated: in the forest of \<open>broken_tree\<close> the directory \<open>a\<close> has a valid
  base case and is an ancestor of \<open>a/b/c\<close>, but \<open>a/b\<close> is not in the forest and the ordering
  from \<open>a/b/c\<close> does not contain the case of \<open>a\<close>; and in the forest of the nested example
  the root has a valid base case and is an ancestor of \<open>a\<close>, yet the ordering from \<open>a\<close> does
  not contain it.
\<close>

theorem run_ancestor_missing_counterexample:
  "map_option Base (map_of (forest_of ''/r'' broken_tree) ''a'')
       = Some (Some (case_at ''a'' ''a'' (- 1)))
   \<and> IsValid (case_at ''a'' ''a'' (- 1)) \<and> is_ancestor ''a'' ''a/b/c''
   \<and> map_option Base (map_of (forest_of ''/r'' broken_tree) ''a/b/c'')
       = Some (Some (case_at ''a/b/c'' ''c'' (- 1)))
   \<and> IsValid (case_at ''a/b/c'' ''c'' (- 1))
   \<and> map_of (forest_of ''/r'' broken_tree) ''a/b'' = None
   \<and> run id (forest_of ''/r'' broken_tree) ''a/b/c'' (- 1) = [case_at ''a/b/c'' ''c'' (- 1)]
   \<and> case_at ''a'' ''a'' (- 1) \<notin> set (run id (forest_of ''/r'' broken_tree) ''a/b/c'' (- 1))
   \<and> map_option Base (map_of (forest_of ''/r'' nested_tree) []) = Some (Some root_case)
   \<and> IsValid root_case \<and> is_ancestor [] ''a''
   \<and> map_option Base (map_of (forest_of ''/r'' nested_tree) ''a'')
       = Some (Some (case_at ''a'' ''a'' (- 1)))
   \<and> run id (forest_of ''/r'' nested_tree) ''a'' (- 1)
       = [case_at ''a'' ''a'' (- 1), case_at ''a/001_B'' ''001_B'' 1]
   \<and> root_case \<notin> set (run id (forest_of ''/r'' nested_tree) ''a'' (- 1))"
  by code_simp

text \<open>
  Claim C7.  Every test case emitted by an ordering, for any forest, start path, limit
  and iteration order, is valid: it has a request path and a response path.
\<close>

theorem run_emits_only_valid: "list_all IsValid (run rng s p m)"
  using run_valid[of _ rng s p m] by (auto simp: list_all_iff)

theorem run_emits_only_valid_witness:
  "list_all IsValid (run id (forest_of ''/r'' nested_tree) ''a/001_B'' 0)
   \<and> run id (forest_of ''/r'' nested_tree) ''a/001_B'' 0 \<noteq> []"
proof -
  have "run id (forest_of ''/r'' nested_tree) ''a/001_B'' 0 \<noteq> []" by code_simp
  with run_emits_only_valid[of id "forest_of ''/r'' nested_tree" "''a/001_B''" 0]
  show ?thesis by simp
qed

text \<open>
  Claim C10.  For a start path that is not a key of the forest the ordering is empty: the
  call returns at once with the visited set and the emitted tests unchanged, before any
  parent is expanded, so not even the tests of existing ancestors are emitted.
\<close>

theorem run_missing_start_empty:
  assumes "map_of s p = None"
  shows "runWithVisited rng s p m (visited, emitted) = (visited, emitted)
         \<and> run rng s p m = [] \<and> GetOrderedTests rng s p = []"
  using assms
  by (simp add: GetOrderedTests_def run_def runWithVisited.simps[of rng s p])

theorem run_missing_start_empty_witness:
  "map_of (forest_of ''/r'' broken_tree) ''a/b'' = None
   \<and> map_of (forest_of ''/r'' broken_tree) ''a'' \<noteq> None
   \<and> run id (forest_of ''/r'' broken_tree) ''a/b'' 5 = []
   \<and> GetOrderedTests id (forest_of ''/r'' broken_tree) ''a/b'' = []"
proof -
  have h: "map_of (forest_of ''/r'' broken_tree) ''a/b'' = None" by code_simp
  have a: "map_of (forest_of ''/r'' broken_tree) ''a'' \<noteq> None" by code_simp
  from run_missing_start_empty[OF h, of id 5] h a show ?thesis by simp
qed

section \<open>Ordering: the sort and the iteration order\<close>

lemma less_test_asym: "less_test a b \<Longrightarrow> \<not> less_test b a"
  by (auto simp: less_test_def split: if_splits)

lemma less_test_negtrans: "\<not> less_test a b \<Longrightarrow> \<not> less_test b c \<Longrightarrow> \<not> less_test a c"
  by (auto simp: less_test_def split: if_splits)

lemma set_bubble: "set (bubble lt x ys) = insert x (set ys)"
  using mset_bubble[of lt x ys] by (metis set_mset_mset set_mset_add_mset_insert)

lemma sorted_bubble:
  "sorted_wrt (\<lambda>a b. \<not> less_test a b) ys \<Longrightarrow> sorted_wrt (\<lambda>a b. \<not> less_test a b) (bubble less_test x ys)"
proof (induction ys)
  case Nil
  then show ?case by simp
next
  case (Cons y ys)
  show ?case
  proof (cases "less_test x y")
    case True
    then show ?thesis using Cons by (auto simp: set_bubble less_test_asym)
  next
    case False
    have "\<not> less_test x z" if "z \<in> set ys" for z
    proof -
      from that Cons.prems have "\<not> less_test y z" by simp
      with False show ?thesis by (rule less_test_negtrans)
    qed
    then show ?thesis using Cons.prems False by simp
  qed
qed

lemma sorted_foldl_bubble:
  "sorted_wrt (\<lambda>a b. \<not> less_test a b) acc \<Longrightarrow>
   sorted_wrt (\<lambda>a b. \<not> less_test a b) (foldl (\<lambda>acc x. bubble less_test x acc) acc xs)"
  by (induction xs arbitrary: acc) (auto simp: sorted_bubble)

lemma sorted_sort_Slice: "sorted_wrt (\<lambda>a b. \<not> less_test b a) (sort_Slice less_test xs)"
  using sorted_foldl_bubble[of "[]" xs] by (simp add: sort_Slice_def sorted_wrt_rev)

lemma sorted_unique:
  assumes "sorted_wrt R xs" and "sorted_wrt R ys" and "mset xs = mset ys"
    and "\<And>a b. a \<in> set xs \<Longrightarrow> b \<in> set xs \<Longrightarrow> R a b \<Longrightarrow> R b a \<Longrightarrow> a = b"
  shows "xs = ys"
  using assms
proof (induction xs arbitrary: ys)
  case Nil
  then show ?case by simp
next
  case (Cons x xs)
  from Cons.prems(3) obtain y ys' where ys: "ys = y # ys'" by (cases ys) auto
  have sets: "set (x # xs) = set ys" using Cons.prems(3) by (metis set_mset_mset)
  have "x = y"
  proof (rule ccontr)
    assume ne: "x \<noteq> y"
    have "y \<in> set xs" using sets ys ne by auto
    then have 1: "R x y" using Cons.prems(1) by auto
    have "x \<in> set ys'" using sets ys ne by auto
    then have 2: "R y x" using Cons.prems(2) ys by auto
    have "y \<in> set (x # xs)" using sets ys by auto
    with Cons.prems(4)[of x y] 1 2 ne show False by auto
  qed
  moreover have "xs = ys'"
  proof (rule Cons.IH)
    show "sorted_wrt R xs" using Cons.prems(1) by simp
    show "sorted_wrt R ys'" using Cons.prems(2) ys by simp
    show "mset xs = mset ys'" using Cons.prems(3) ys \<open>x = y\<close> by simp
    show "\<And>a b. a \<in> set xs \<Longrightarrow> b \<in> set xs \<Longrightarrow> R a b \<Longrightarrow> R b a \<Longrightarrow> a = b"
      using Cons.prems(4) by auto
  qed
  ultimately show ?case using ys by simp
qed

lemma mset_map_filter: "mset xs = mset ys \<Longrightarrow> mset (List.map_filter f xs) = mset (List.map_filter f ys)"
  by (metis List.map_filter_def mset_filter mset_map)

lemma childTests_subset:
  assumes "mset (rng (Tests suite)) = mset (Tests suite)"
  shows "set (childTests rng s suite m) \<subseteq> set (childTests id s suite (- 1))"
proof -
  have "set (rng (Tests suite)) = set (Tests suite)" using assms by (metis set_mset_mset)
  then show ?thesis
    by (auto simp: childTests_def set_map_filter split: option.splits if_splits)
qed

lemma childTests_sorted_eq:
  assumes r1: "\<And>m. mset (rng1 m) = mset m" and r2: "\<And>m. mset (rng2 m) = mset m"
    and nt: "no_ties s" and su: "map_of s p = Some suite"
  shows "sort_Slice less_test (childTests rng1 s suite m) = sort_Slice less_test (childTests rng2 s suite m)"
proof (rule sorted_unique[where R = "\<lambda>a b. \<not> less_test b a"])
  show "sorted_wrt (\<lambda>a b. \<not> less_test b a) (sort_Slice less_test (childTests rng1 s suite m))"
    by (rule sorted_sort_Slice)
  show "sorted_wrt (\<lambda>a b. \<not> less_test b a) (sort_Slice less_test (childTests rng2 s suite m))"
    by (rule sorted_sort_Slice)
  have "mset (childTests rng1 s suite m) = mset (childTests rng2 s suite m)"
    unfolding childTests_def by (rule mset_map_filter) (simp add: r1 r2)
  then show "mset (sort_Slice less_test (childTests rng1 s suite m)) = mset (sort_Slice less_test (childTests rng2 s suite m))"
    by (simp only: mset_sort_Slice)
  fix a b
  assume a: "a \<in> set (sort_Slice less_test (childTests rng1 s suite m))"
    and b: "b \<in> set (sort_Slice less_test (childTests rng1 s suite m))"
    and ab: "\<not> less_test b a" "\<not> less_test a b"
  from su have "(p, suite) \<in> set s" by (rule map_of_SomeD)
  with nt have "\<forall>x \<in> set (childTests id s (snd (p, suite)) (- 1)).
      \<forall>y \<in> set (childTests id s (snd (p, suite)) (- 1)). x = y \<or> less_test x y \<or> less_test y x"
    unfolding no_ties_def list_all_iff by (rule bspec)
  then have tot: "\<forall>x \<in> set (childTests id s suite (- 1)).
      \<forall>y \<in> set (childTests id s suite (- 1)). x = y \<or> less_test x y \<or> less_test y x"
    by simp
  have "set (childTests rng1 s suite m) \<subseteq> set (childTests id s suite (- 1))"
    by (rule childTests_subset) (rule r1)
  with a b have "a \<in> set (childTests id s suite (- 1))" "b \<in> set (childTests id s suite (- 1))"
    by (auto simp only: set_sort_Slice)
  with tot have "a = b \<or> less_test a b \<or> less_test b a" by blast
  with ab show "a = b" by blast
qed

lemma unseq_last:
  "sorted_wrt (\<lambda>a b. Seq a < 0 \<longrightarrow> Seq b < 0 \<and> Name a \<le> Name b) (sort_Slice less_test xs)"
proof (rule sorted_wrt_mono_rel[OF _ sorted_sort_Slice])
  fix a b assume h: "\<not> less_test b a"
  show "Seq a < 0 \<longrightarrow> Seq b < 0 \<and> Name a \<le> Name b"
  proof
    assume sa: "Seq a < 0"
    have sb: "Seq b < 0"
    proof (rule ccontr)
      assume "\<not> Seq b < 0"
      then have "less_test b a" using sa by (simp add: less_test_def)
      with h show False ..
    qed
    from h sa sb have "\<not> Name b < Name a" by (simp add: less_test_def)
    then show "Seq b < 0 \<and> Name a \<le> Name b" using sb by (simp add: not_less)
  qed
qed

lemma runnable_set:
  assumes "distinct (map fst s)"
  shows "set (RunnableSuitePaths s) = {p. \<exists>suite. map_of s p = Some suite \<and> \<not> (refs suite > 0 \<and> Tests suite = [])}"
  using assms by (auto simp: RunnableSuitePaths_def image_iff)

lemma runnable_sorted: "sorted (RunnableSuitePaths s)"
  by (simp add: RunnableSuitePaths_def)

lemma runnable_distinct: "distinct (map fst s) \<Longrightarrow> distinct (RunnableSuitePaths s)"
  by (simp add: RunnableSuitePaths_def distinct_map_filter)

text \<open>
  Claim C4, as amended.  Two orderings of the same forest from the same start path with
  the same limit are identical whatever order the iteration over the child map takes,
  provided that in every suite any two different valid child tests are ordered by the
  comparison (no two sequenced children share a sequence number).  Each iteration order
  \<open>rng\<close> lists exactly the entries of the map.
\<close>

theorem run_order_independent:
  assumes r1: "\<And>m. mset (rng1 m) = mset m" and r2: "\<And>m. mset (rng2 m) = mset m"
    and nt: "no_ties s"
  shows "run rng1 s p m = run rng2 s p m"
proof (induction p arbitrary: m rule: measure_induct_rule[of length])
  case (less p)
  show ?case
  proof (cases "map_of s p")
    case None
    then show ?thesis by (simp add: run_missing)
  next
    case (Some suite)
    have own: "own_tests rng1 s suite m = own_tests rng2 s suite m"
      by (simp add: own_tests_def childTests_sorted_eq[OF r1 r2 nt Some])
    show ?thesis
    proof (cases "getParentPath p = []")
      case True
      then show ?thesis by (simp add: run_unfold[OF Some] own)
    next
      case False
      then have "length (getParentPath p) < length p" by (rule getParentPath_shorter)
      from less.IH[OF this] show ?thesis by (simp add: run_unfold[OF Some] own)
    qed
  qed
qed

theorem run_order_independent_witness:
  "(\<forall>m :: (string \<times> string) list. mset (id m) = mset m)
   \<and> (\<forall>m :: (string \<times> string) list. mset (rev m) = mset m)
   \<and> no_ties (forest_of ''/r'' scenario_tree)
   \<and> run id (forest_of ''/r'' scenario_tree) [] (- 1) = run rev (forest_of ''/r'' scenario_tree) [] (- 1)
   \<and> run id (forest_of ''/r'' scenario_tree) [] (- 1)
       = [root_case, case_at ''001_First'' ''001_First'' 1, case_at ''002_Second'' ''002_Second'' 2]"
proof -
  have r1: "\<And>m :: (string \<times> string) list. mset (id m) = mset m" by simp
  have r2: "\<And>m :: (string \<times> string) list. mset (rev m) = mset m" by simp
  have nt: "no_ties (forest_of ''/r'' scenario_tree)" by code_simp
  have v: "run id (forest_of ''/r'' scenario_tree) [] (- 1)
       = [root_case, case_at ''001_First'' ''001_First'' 1, case_at ''002_Second'' ''002_Second'' 2]"
    by code_simp
  from run_order_independent[of id rev, OF r1 r2 nt, of "[]" "- 1"] r1 r2 nt v
  show ?thesis by simp
qed

text \<open>
  Against claim C4 as stated: the children \<open>01_x\<close> and \<open>1_y\<close> share the sequence number 1,
  and the same forest, start path and limit give two different sequences under two
  iteration orders of the same child map.
\<close>

theorem run_order_dependent_counterexample:
  "Seq (case_at ''01_x'' ''01_x'' 1) = Seq (case_at ''1_y'' ''1_y'' 1)
   \<and> run id (forest_of ''/r'' tied_tree) [] (- 1)
       = [case_at ''01_x'' ''01_x'' 1, case_at ''1_y'' ''1_y'' 1]
   \<and> run rev (forest_of ''/r'' tied_tree) [] (- 1)
       = [case_at ''1_y'' ''1_y'' 1, case_at ''01_x'' ''01_x'' 1]
   \<and> run id (forest_of ''/r'' tied_tree) [] (- 1) \<noteq> run rev (forest_of ''/r'' tied_tree) [] (- 1)"
  by code_simp

text \<open>
  Claim C3, as amended.  On a forest with distinct keys, \<open>RunnableSuitePaths\<close> returns
  exactly the keys whose suite does not have both a positive reference count and an empty
  child map, sorted lexicographically and without duplicates.  The root path is in the
  result exactly when the root is a key of the forest and is not such a suite: the root
  does accumulate a reference count, one for each child directory that has a base test.
\<close>

theorem RunnableSuitePaths_exact:
  assumes "distinct (map fst s)"
  shows "set (RunnableSuitePaths s)
           = {p. \<exists>suite. map_of s p = Some suite \<and> \<not> (refs suite > 0 \<and> Tests suite = [])}
         \<and> sorted (RunnableSuitePaths s) \<and> distinct (RunnableSuitePaths s)
         \<and> ([] \<in> set (RunnableSuitePaths s)
              \<longleftrightarrow> (\<exists>root. map_of s [] = Some root \<and> \<not> (refs root > 0 \<and> Tests root = [])))"
proof -
  have 1: "set (RunnableSuitePaths s)
           = {p. \<exists>suite. map_of s p = Some suite \<and> \<not> (refs suite > 0 \<and> Tests suite = [])}"
    by (rule runnable_set[OF assms])
  then have "[] \<in> set (RunnableSuitePaths s)
      \<longleftrightarrow> (\<exists>root. map_of s [] = Some root \<and> \<not> (refs root > 0 \<and> Tests root = []))"
    by simp
  with 1 runnable_sorted[of s] runnable_distinct[OF assms] show ?thesis by simp
qed

theorem RunnableSuitePaths_exact_witness:
  "distinct (map fst (forest_of ''/r'' scenario_tree))
   \<and> RunnableSuitePaths (forest_of ''/r'' scenario_tree) = [[], ''Extra'']
   \<and> set (RunnableSuitePaths (forest_of ''/r'' scenario_tree))
       = {p. \<exists>suite. map_of (forest_of ''/r'' scenario_tree) p = Some suite
                \<and> \<not> (refs suite > 0 \<and> Tests suite = [])}
   \<and> sorted (RunnableSuitePaths (forest_of ''/r'' scenario_tree))
   \<and> distinct (RunnableSuitePaths (forest_of ''/r'' scenario_tree))"
proof -
  have d: "distinct (map fst (forest_of ''/r'' scenario_tree))" by code_simp
  have v: "RunnableSuitePaths (forest_of ''/r'' scenario_tree) = [[], ''Extra'']" by code_simp
  from RunnableSuitePaths_exact[OF d] d v show ?thesis by simp
qed

text \<open>
  Against claim C3 as stated: in the forest of the nested example the root is a key, its
  reference count is 1 (its child \<open>a\<close> has a base test) and its child map is empty (\<open>a\<close> is
  unsequenced), so the root path is not runnable; and in the forest of \<open>broken_tree\<close> the
  root, which has no fixture and no sequenced child, was pruned and is not a key at all.
\<close>

theorem RunnableSuitePaths_root_counterexample:
  "map_option refs (map_of (forest_of ''/r'' nested_tree) []) = Some 1
   \<and> map_option Tests (map_of (forest_of ''/r'' nested_tree) []) = Some []
   \<and> RunnableSuitePaths (forest_of ''/r'' nested_tree) = [''a'']
   \<and> [] \<notin> set (RunnableSuitePaths (forest_of ''/r'' nested_tree))
   \<and> map_of (forest_of ''/r'' broken_tree) [] = None
   \<and> RunnableSuitePaths (forest_of ''/r'' broken_tree) = [''a'', ''a/b/c'']
   \<and> [] \<notin> set (RunnableSuitePaths (forest_of ''/r'' broken_tree))"
  by code_simp

section \<open>Discovery: excluded directories and registered children\<close>

lemma Split_segment_found:
  "(list_ex (prefix k) (tl (strings_Split p c)) \<longrightarrow> sublist (c # k) p)
   \<and> (prefix k (hd (strings_Split p c)) \<longrightarrow> prefix k p)"
proof (induction p arbitrary: k)
  case Nil
  then show ?case by simp
next
  case (Cons x xs)
  obtain h t where ht: "strings_Split xs c = h # t"
    using strings_Split_nonempty[of xs c] by (cases "strings_Split xs c") auto
  show ?case
  proof (cases "x = c")
    case True
    have "sublist (c # k) (c # xs)" if "list_ex (prefix k) (h # t)"
    proof (cases "prefix k h")
      case True
      with Cons.IH[of k] ht have "prefix k xs" by simp
      then have "prefix (c # k) (c # xs)" by simp
      then show ?thesis by (rule prefix_imp_sublist)
    next
      case False
      with that have "list_ex (prefix k) t" by simp
      with Cons.IH[of k] ht have "sublist (c # k) xs" by simp
      then show ?thesis by (simp add: sublist_Cons_right)
    qed
    then show ?thesis using True ht by simp
  next
    case False
    have 1: "sublist (c # k) (x # xs)" if "list_ex (prefix k) t"
    proof -
      from that Cons.IH[of k] ht have "sublist (c # k) xs" by simp
      then show ?thesis by (simp add: sublist_Cons_right)
    qed
    have 2: "prefix k (x # xs)" if "prefix k (x # h)"
    proof (cases k)
      case Nil
      then show ?thesis by simp
    next
      case (Cons y k')
      with that have "y = x" "prefix k' h" by auto
      with Cons.IH[of k'] ht have "prefix k' xs" by simp
      then show ?thesis using Cons \<open>y = x\<close> by simp
    qed
    from 1 2 show ?thesis using False ht by simp
  qed
qed

lemma skipped_Contains:
  assumes "skipped p"
  shows "strings_Contains (filepath_Join base p) ''/SKIP''"
proof -
  from assms have ne: "p \<noteq> []" by (auto simp: skipped_def)
  obtain h t where ht: "strings_Split p sep = h # t"
    using strings_Split_nonempty[of p sep] by (cases "strings_Split p sep") auto
  have "sublist (sep # ''SKIP'') (sep # p)"
  proof (cases "prefix ''SKIP'' h")
    case True
    with Split_segment_found[of "''SKIP''" p sep] ht have "prefix ''SKIP'' p" by simp
    then have "prefix (sep # ''SKIP'') (sep # p)" by simp
    then show ?thesis by (rule prefix_imp_sublist)
  next
    case False
    with assms ht have "list_ex (prefix ''SKIP'') t" by (simp add: skipped_def)
    with Split_segment_found[of "''SKIP''" p sep] ht have "sublist (sep # ''SKIP'') p" by simp
    then show ?thesis by (simp add: sublist_Cons_right)
  qed
  then have "sublist (sep # ''SKIP'') ((if base = [sep] then [] else base) @ sep # p)"
    by (simp add: sublist_append)
  then show ?thesis using ne by (simp add: strings_Contains_def filepath_Join_def sep_def)
qed

lemma skipped_below: "skipped q \<Longrightarrow> skipped (q @ sep # f)"
  by (auto simp: skipped_def strings_Split_append_sep)

lemma not_Contains_prefix:
  "\<not> strings_Contains s x \<Longrightarrow> prefix q s \<Longrightarrow> \<not> strings_Contains q x"
  unfolding strings_Contains_def by (meson prefix_imp_sublist sublist_order.order_trans)

lemma Join_parent_prefix: "prefix (filepath_Join base (getParentPath k)) (filepath_Join base k)"
proof (cases "getParentPath k = []")
  case True
  then show ?thesis by (auto simp: filepath_Join_def)
next
  case False
  then obtain q where "k = getParentPath k @ sep # q" using getParentPath_prefix by blast
  then have "filepath_Join base k = filepath_Join base (getParentPath k) @ sep # q"
    using False by (metis (no_types) append.assoc append_Cons filepath_Join_def append_is_Nil_conv list.distinct(1))
  then show ?thesis by (metis prefixI)
qed

lemma Join_Dir_prefix:
  "prefix (filepath_Join base (if filepath_Dir r = ''.'' then [] else filepath_Dir r)) (filepath_Join base r)"
proof (cases "length (strings_Split r sep) \<le> 1")
  case True
  then show ?thesis by (auto simp: filepath_Dir_def filepath_Join_def)
next
  case False
  let ?parts = "strings_Split r sep"
  from False have d: "filepath_Dir r = strings_Join (butlast ?parts) sep"
    by (simp add: filepath_Dir_def)
  from False have bne: "butlast ?parts \<noteq> []" by (cases ?parts) (auto split: if_splits)
  have "?parts = butlast ?parts @ [last ?parts]" using strings_Split_nonempty by simp
  then have "strings_Join ?parts sep = strings_Join (butlast ?parts) sep @ sep # last ?parts"
    using strings_Join_snoc[OF bne] by metis
  then have r: "r = filepath_Dir r @ sep # last ?parts"
    by (simp only: strings_Join_Split d)
  show ?thesis
  proof (cases "filepath_Dir r = ''.'' \<or> filepath_Dir r = []")
    case True
    then show ?thesis by (auto simp: filepath_Join_def)
  next
    case False
    have "filepath_Join base r = filepath_Join base (filepath_Dir r) @ sep # last ?parts"
      using False r by (metis (no_types) append.assoc append_Cons filepath_Join_def append_is_Nil_conv list.distinct(1))
    then show ?thesis using False by (metis prefixI)
  qed
qed

lemma parse_facts:
  assumes "parseTestFile base (filepath_Join base rel) isDir = Some test"
  shows "\<not> strings_Contains (filepath_Join base (Dir test)) ''/SKIP''"
    and "clean_case test" and "Seq test = seq_of (testName_of (Dir test))"
    and "Name test = testName_of (Dir test)"
proof -
  let ?path = "filepath_Join base rel"
  let ?r = "filepath_Rel base ?path"
  let ?d = "if filepath_Dir ?r = ''.'' then [] else filepath_Dir ?r"
  from assms have ns: "\<not> strings_Contains ?path ''/SKIP''"
    by (auto simp: parseTestFile_def split: if_splits)
  have e: "\<not> strings_Contains [] ''/SKIP''" by (simp add: strings_Contains_def)
  from assms have dir: "Dir test = ?d" and "Seq test = seq_of (testName_of ?d)"
    and "Name test = testName_of ?d" and cl: "clean_case test"
    using ns e by (auto simp: parseTestFile_def Let_def clean_case_def split: if_splits)
  then show "Seq test = seq_of (testName_of (Dir test))" "Name test = testName_of (Dir test)" "clean_case test"
    by simp_all
  have "prefix (filepath_Join base ?d) ?path"
  proof (cases "rel = []")
    case True
    then show ?thesis by (simp add: filepath_Join_def filepath_Rel_def filepath_Dir_def sep_def)
  next
    case False
    then have "?r = rel" by (rule filepath_Rel_Join)
    then show ?thesis by (simp only: Join_Dir_prefix)
  qed
  with ns show "\<not> strings_Contains (filepath_Join base (Dir test)) ''/SKIP''"
    unfolding dir by (rule not_Contains_prefix)
qed

lemma set_update_subset: "set (AList.update k v al) \<subseteq> insert (k, v) (set al)"
  by (induction al) auto

lemma forest_ok_update:
  assumes "forest_ok base s" and "node_ok base k v"
  shows "forest_ok base (AList.update k v s)"
proof -
  have "distinct (map fst (AList.update k v s))"
    using assms(1) by (simp add: forest_ok_def distinct_update)
  moreover have "node_ok base (fst e) (snd e)" if "e \<in> set (AList.update k v s)" for e
  proof -
    from that set_update_subset[of k v s] have "e = (k, v) \<or> e \<in> set s" by blast
    then show ?thesis using assms by (auto simp: forest_ok_def)
  qed
  ultimately show ?thesis by (simp add: forest_ok_def)
qed

lemma forest_ok_lookup: "forest_ok base s \<Longrightarrow> map_of s k = Some v \<Longrightarrow> node_ok base k v"
  by (auto simp: forest_ok_def dest!: map_of_SomeD)

lemma forest_ok_modify:
  assumes "forest_ok base s" and "\<And>v. node_ok base k v \<Longrightarrow> node_ok base k (f v)"
  shows "forest_ok base (modify k f s)"
proof (cases "map_of s k")
  case None
  then show ?thesis using assms(1) by (simp add: modify_def)
next
  case (Some v)
  then have "node_ok base k (f v)" using assms forest_ok_lookup by blast
  then show ?thesis using Some assms(1) by (simp add: modify_def forest_ok_update)
qed

lemma node_ok_refs: "node_ok base k v \<Longrightarrow> node_ok base k (v\<lparr> refs := r \<rparr>)"
  by (simp add: node_ok_def)

lemma clean_case_merge: "clean_case b \<Longrightarrow> clean_case t \<Longrightarrow> clean_case (mergeTest b t)"
  by (simp add: clean_case_def mergeTest_def)

lemma node_ok_register:
  assumes "node_ok base k v" and "\<not> strings_Contains (filepath_Join base k) ''/SKIP''"
    and "0 \<le> seq_of (testName_of c)" and "getParentPath c = k" and "c \<noteq> []"
    and "n = testName_of c"
  shows "node_ok base k (v\<lparr> Tests := AList.update n c (Tests v), Children := ch \<rparr>)"
proof -
  have "e = (n, c) \<or> e \<in> set (Tests v)" if "e \<in> set (AList.update n c (Tests v))" for e
    using that set_update_subset[of n c "Tests v"] by blast
  moreover have "distinct (map fst (AList.update n c (Tests v)))"
    using assms(1) by (simp add: node_ok_def distinct_update)
  ultimately show ?thesis using assms by (fastforce simp: node_ok_def)
qed

lemma visit_dir:
  "visit base (path, True) s =
     Inr (AList.update (if filepath_Rel base path = ''.'' then [] else filepath_Rel base path)
            \<lparr> Path = (if filepath_Rel base path = ''.'' then [] else filepath_Rel base path),
              Base = None, Tests = [], Children = [], refs = 0 \<rparr> s)"
  by (simp add: visit_def Let_def)

lemma visit_not_test:
  "parseTestFile base path False = None \<Longrightarrow> visit base (path, False) s = Inr s"
  by (simp add: visit_def Let_def)

lemma visit_no_suite:
  "parseTestFile base path False = Some test \<Longrightarrow> map_of s (Dir test) = None \<Longrightarrow>
   visit base (path, False) s = Inl (SuiteNotFound (Dir test))"
  by (simp add: visit_def Let_def)

lemma visit_root_file:
  assumes "parseTestFile base path False = Some test" and "map_of s (Dir test) = Some suite"
    and "Path suite = []"
  shows "visit base (path, False) s =
     Inr (AList.update (Dir test)
            (suite\<lparr> Base := Some (case Base suite of None \<Rightarrow> test | Some b \<Rightarrow> mergeTest b test) \<rparr>) s)"
  using assms by (simp add: visit_def Let_def)

lemma visit_no_parent:
  assumes "parseTestFile base path False = Some test" and "map_of s (Dir test) = Some suite"
    and "Path suite \<noteq> []"
    and "bs = (case Base suite of None \<Rightarrow> test | Some b \<Rightarrow> mergeTest b test)"
    and "s1 = AList.update (Dir test) (suite\<lparr> Base := Some bs \<rparr>) s"
    and "map_of s1 (getParentPath (Path suite)) = None"
  shows "visit base (path, False) s = Inl (ParentNotFound (getParentPath (Path suite)) (Path suite))"
  using assms by (simp add: visit_def Let_def)

lemma visit_child_file:
  assumes "parseTestFile base path False = Some test" and "map_of s (Dir test) = Some suite"
    and "Path suite \<noteq> []"
    and "bs = (case Base suite of None \<Rightarrow> test | Some b \<Rightarrow> mergeTest b test)"
    and "s1 = AList.update (Dir test) (suite\<lparr> Base := Some bs \<rparr>) s"
    and "pp = getParentPath (Path suite)"
    and "map_of s1 pp = Some parent"
    and "s2 = (if Base suite = None then modify pp (\<lambda>p. p\<lparr> refs := refs p + 1 \<rparr>) s1 else s1)"
    and "s3 = modify pp (\<lambda>p. p\<lparr> Tests := AList.update (Name test) (Path suite) (Tests p),
                              Children := AList.update (Name test) (Dir test) (Children p) \<rparr>) s2"
  shows "visit base (path, False) s =
     Inr (if 0 \<le> Seq bs
          then (if Base suite = None then modify (Dir test) (\<lambda>c. c\<lparr> refs := refs c + 1 \<rparr>) s3 else s3)
          else s2)"
  using assms by (simp add: visit_def Let_def)

lemma visit_ok:
  assumes ok: "forest_ok base s" and v: "visit base (filepath_Join base rel, isDir) s = Inr s'"
  shows "forest_ok base s'"
proof (cases isDir)
  case True
  with v have "s' = AList.update (if filepath_Rel base (filepath_Join base rel) = ''.'' then [] else filepath_Rel base (filepath_Join base rel))
      \<lparr> Path = (if filepath_Rel base (filepath_Join base rel) = ''.'' then [] else filepath_Rel base (filepath_Join base rel)),
        Base = None, Tests = [], Children = [], refs = 0 \<rparr> s"
    by (simp only: visit_dir sum.inject)
  then show ?thesis using ok by (simp add: forest_ok_update node_ok_def)
next
  case notDir: False
  show ?thesis
  proof (cases "parseTestFile base (filepath_Join base rel) False")
    case None
    with v notDir have "s' = s" by (simp add: visit_not_test)
    with ok show ?thesis by simp
  next
    case (Some test)
    note pf = parse_facts[OF Some]
    from v notDir Some obtain suite where su: "map_of s (Dir test) = Some suite"
      by (cases "map_of s (Dir test)") (simp_all add: visit_no_suite)
    have sok: "node_ok base (Dir test) suite" using ok su by (rule forest_ok_lookup)
    then have path: "Path suite = Dir test" by (simp add: node_ok_def)
    define bs where "bs = (case Base suite of None \<Rightarrow> test | Some b \<Rightarrow> mergeTest b test)"
    define s1 where "s1 = AList.update (Dir test) (suite\<lparr> Base := Some bs \<rparr>) s"
    define pp where "pp = getParentPath (Path suite)"
    have bs_ok: "clean_case bs \<and> Seq bs = seq_of (testName_of (Dir test)) \<and> Dir bs = Dir test"
    proof (cases "Base suite")
      case None
      then have "bs = test" by (simp add: bs_def)
      with pf(2,3) show ?thesis by simp
    next
      case (Some b)
      then have b: "bs = mergeTest b test" by (simp add: bs_def)
      from sok Some have "clean_case b" "Seq b = seq_of (testName_of (Dir test))" "Dir b = Dir test"
        by (simp_all add: node_ok_def)
      moreover have "Seq (mergeTest b test) = Seq b" "Dir (mergeTest b test) = Dir b"
        by (simp_all add: mergeTest_def)
      ultimately show ?thesis using pf(2) b by (simp add: clean_case_merge)
    qed
    have "node_ok base (Dir test) (suite\<lparr> Base := Some bs \<rparr>)"
      using sok pf(1) bs_ok by (simp add: node_ok_def)
    then have ok1: "forest_ok base s1" unfolding s1_def using ok by (simp add: forest_ok_update)
    show ?thesis
    proof (cases "Path suite = []")
      case True
      from v notDir have "s' = s1"
        by (simp add: visit_root_file[OF Some su True] s1_def bs_def)
      with ok1 show ?thesis by simp
    next
      case False
      define s2 where "s2 = (if Base suite = None then modify pp (\<lambda>p. p\<lparr> refs := refs p + 1 \<rparr>) s1 else s1)"
      have ok2: "forest_ok base s2"
        unfolding s2_def using ok1 by (simp add: forest_ok_modify node_ok_refs)
      define s3 where "s3 = modify pp
              (\<lambda>p. p\<lparr> Tests := AList.update (Name test) (Path suite) (Tests p),
                      Children := AList.update (Name test) (Dir test) (Children p) \<rparr>) s2"
      from v notDir obtain parent where pa: "map_of s1 pp = Some parent"
        by (cases "map_of s1 pp")
           (simp_all add: visit_no_parent[OF Some su False bs_def s1_def] pp_def)
      from v notDir have s': "s' = (if 0 \<le> Seq bs
          then (if Base suite = None then modify (Dir test) (\<lambda>c. c\<lparr> refs := refs c + 1 \<rparr>) s3 else s3)
          else s2)"
        by (simp add: visit_child_file[OF Some su False bs_def s1_def pp_def pa s2_def s3_def])
      show ?thesis
      proof (cases "0 \<le> Seq bs")
        case neg: False
        with s' ok2 show ?thesis by simp
      next
        case True
        have np: "\<not> strings_Contains (filepath_Join base pp) ''/SKIP''"
          using pf(1) Join_parent_prefix[of base "Dir test"] unfolding pp_def path
          by (rule not_Contains_prefix)
        have sq: "0 \<le> seq_of (testName_of (Path suite))" using True bs_ok path by simp
        have pk: "getParentPath (Path suite) = pp" by (simp add: pp_def)
        have nm: "Name test = testName_of (Path suite)" using pf(4) path by simp
        have ok3: "forest_ok base s3"
          unfolding s3_def using ok2 np sq pk False nm by (intro forest_ok_modify node_ok_register)
        have ok4: "forest_ok base (modify (Dir test) (\<lambda>c. c\<lparr> refs := refs c + 1 \<rparr>) s3)"
          using ok3 by (rule forest_ok_modify) (rule node_ok_refs)
        show ?thesis
        proof (cases "Base suite = None")
          case True
          with s' \<open>0 \<le> Seq bs\<close> have "s' = modify (Dir test) (\<lambda>c. c\<lparr> refs := refs c + 1 \<rparr>) s3"
            by simp
          with ok4 show ?thesis by simp
        next
          case False
          with s' \<open>0 \<le> Seq bs\<close> have "s' = s3" by simp
          with ok3 show ?thesis by simp
        qed
      qed
    qed
  qed
qed

lemma Join_Join:
  "\<exists>rel'. filepath_Join (filepath_Join base rel) n = filepath_Join base rel'"
proof (cases "n = []")
  case True
  then show ?thesis by (auto simp: filepath_Join_def)
next
  case False
  show ?thesis
  proof (cases "rel = []")
    case True
    then show ?thesis by (auto simp: filepath_Join_def)
  next
    case rne: False
    have "filepath_Join (filepath_Join base rel) n = filepath_Join base (rel @ sep # n)"
      using False rne by (auto simp: filepath_Join_def append_eq_Cons_conv)
    then show ?thesis by blast
  qed
qed

lemma Walk_paths:
  "ev \<in> set (Walk (filepath_Join base rel) tree) \<Longrightarrow> \<exists>rel'. fst ev = filepath_Join base rel'"
proof (induction tree arbitrary: rel ev)
  case FsFile
  then show ?case by auto
next
  case (FsDir entries)
  from FsDir.prems consider "ev = (filepath_Join base rel, True)"
    | e where "e \<in> set entries" "ev \<in> set (Walk (filepath_Join (filepath_Join base rel) (fst e)) (snd e))"
    by auto
  then show ?case
  proof cases
    case 1
    then show ?thesis by auto
  next
    case 2
    obtain rel' where r: "filepath_Join (filepath_Join base rel) (fst e) = filepath_Join base rel'"
      using Join_Join by blast
    have "snd e \<in> Basic_BNFs.snds e" by (cases e) simp
    from FsDir.IH[OF 2(1) this, of ev rel'] 2(2) r show ?thesis by simp
  qed
qed

lemma walk_all_ok:
  assumes "forest_ok base s" and "\<And>ev. ev \<in> set evs \<Longrightarrow> \<exists>rel. fst ev = filepath_Join base rel"
    and "walk_all base evs s = Inr s'"
  shows "forest_ok base s'"
  using assms
proof (induction evs arbitrary: s)
  case Nil
  then show ?case by simp
next
  case (Cons ev evs)
  from Cons.prems(3) obtain s1 where s1: "visit base ev s = Inr s1" and rest: "walk_all base evs s1 = Inr s'"
    by (auto split: sum.splits)
  obtain rel where "fst ev = filepath_Join base rel" using Cons.prems(2)[of ev] by auto
  then have "ev = (filepath_Join base rel, snd ev)" by (cases ev) simp
  with s1 have "visit base (filepath_Join base rel, snd ev) s = Inr s1" by simp
  with Cons.prems(1) have "forest_ok base s1" by (rule visit_ok)
  then show ?case using rest Cons.prems(2) by (intro Cons.IH[of s1]) auto
qed

lemma DiscoverTests_ok:
  assumes "DiscoverTests base tree = Inr f"
  shows "forest_ok base f"
proof -
  from assms obtain s where w: "walk_all base (Walk base tree) [] = Inr s" and f: "f = prune s"
    by (auto simp: DiscoverTests_def split: sum.splits)
  have "forest_ok base []" by (simp add: forest_ok_def)
  moreover have "\<exists>rel. fst ev = filepath_Join base rel" if "ev \<in> set (Walk base tree)" for ev
    using that Walk_paths[of ev base "[]" tree] by (simp add: filepath_Join_def)
  ultimately have "forest_ok base s" using w by (rule walk_all_ok)
  then show ?thesis unfolding f prune_def forest_ok_def by (simp add: distinct_map_filter)
qed

lemma DiscoverTests_not_pruned:
  assumes "DiscoverTests base tree = Inr f" and "map_of f p = Some suite"
  shows "Base suite \<noteq> None \<or> Tests suite \<noteq> []"
proof -
  from assms(1) obtain s where f: "f = prune s"
    by (auto simp: DiscoverTests_def split: sum.splits)
  from assms(2) have "(p, suite) \<in> set f" by (rule map_of_SomeD)
  then show ?thesis unfolding f prune_def by auto
qed

lemma childTests_mem:
  assumes "t \<in> set (childTests rng s suite m)"
  shows "\<exists>e child. e \<in> set (rng (Tests suite)) \<and> map_of s (snd e) = Some child \<and> Base child = Some t"
proof -
  from assms obtain e where e: "e \<in> set (rng (Tests suite))"
    and r: "(case map_of s (snd e) of None \<Rightarrow> None
             | Some child \<Rightarrow>
                 (case Base child of None \<Rightarrow> None
                  | Some b \<Rightarrow> if \<not> IsValid b then None
                             else if m \<ge> 0 \<and> Seq b \<ge> 0 \<and> Seq b > m then None else Some b)) = Some t"
    unfolding childTests_def set_map_filter by blast
  from r obtain child where c: "map_of s (snd e) = Some child"
    by (cases "map_of s (snd e)") simp_all
  from r c obtain b where b: "Base child = Some b" by (cases "Base child") simp_all
  from r c b have "b = t" by (simp split: if_split_asm)
  with e c b show ?thesis by blast
qed

lemma built_children_sequenced:
  assumes "DiscoverTests base tree = Inr f" and "map_of f p = Some suite"
    and "set (rng (Tests suite)) \<subseteq> set (Tests suite)"
  shows "list_all (\<lambda>t. 0 \<le> Seq t) (childTests rng f suite m)"
proof -
  have ok: "forest_ok base f" using assms(1) by (rule DiscoverTests_ok)
  have nk: "node_ok base p suite" using ok assms(2) by (rule forest_ok_lookup)
  have "0 \<le> Seq t" if "t \<in> set (childTests rng f suite m)" for t
  proof -
    from that obtain e child where e: "e \<in> set (rng (Tests suite))"
      and c: "map_of f (snd e) = Some child" and b: "Base child = Some t"
      using childTests_mem by blast
    from e assms(3) nk have "0 \<le> seq_of (testName_of (snd e))" by (auto simp: node_ok_def)
    moreover from ok c have "node_ok base (snd e) child" by (rule forest_ok_lookup)
    with b have "Seq t = seq_of (testName_of (snd e))" by (simp add: node_ok_def)
    ultimately show ?thesis by simp
  qed
  then show ?thesis by (simp add: list_all_iff)
qed

lemma walk_all_append:
  "walk_all base (xs @ ys) s =
     (case walk_all base xs s of Inl e \<Rightarrow> Inl e | Inr s1 \<Rightarrow> walk_all base ys s1)"
  by (induction xs arbitrary: s) (auto split: sum.splits)

lemma dom_map_of_update: "dom (map_of (AList.update k v s)) = insert k (dom (map_of s))"
  by (simp add: update_conv')

lemma dom_modify: "dom (map_of (modify k f s)) = dom (map_of s)"
proof (cases "map_of s k")
  case None
  then show ?thesis by (simp add: modify_def)
next
  case (Some v)
  then have "k \<in> dom (map_of s)" by auto
  then show ?thesis using Some by (simp add: modify_def dom_map_of_update insert_absorb)
qed

lemma Join_child:
  "n \<noteq> [] \<Longrightarrow> filepath_Join (filepath_Join base d) n = filepath_Join base (child_path d n)"
  by (auto simp: filepath_Join_def child_path_def append_eq_Cons_conv)

lemma getParentPath_child: "wf_name n \<Longrightarrow> getParentPath (child_path d n) = d"
  by (auto simp: getParentPath_def child_path_def wf_name_def strings_Split_append_sep
        strings_Split_no_sep strings_Join_Split strings_Split_nonempty Let_def Suc_le_eq)

lemma child_path_not_dot: "wf_name n \<Longrightarrow> child_path d n \<noteq> ''.'' \<and> child_path d n \<noteq> []"
  by (auto simp: child_path_def wf_name_def append_eq_Cons_conv sep_def)

lemma parse_Dir:
  assumes "parseTestFile base (filepath_Join base (child_path d n)) False = Some t"
    and "wf_name n" and "d \<noteq> ''.''"
  shows "Dir t = d"
proof -
  let ?rel = "child_path d n"
  have ne: "?rel \<noteq> []" using assms(2) by (simp add: child_path_not_dot)
  have rel: "filepath_Rel base (filepath_Join base ?rel) = ?rel"
    using ne by (rule filepath_Rel_Join)
  have "sep \<notin> set n" using assms(2) by (simp add: wf_name_def)
  from filepath_Dir_file[OF this, of d]
  have dir: "(if filepath_Dir ?rel = ''.'' then [] else filepath_Dir ?rel) = d"
    using assms(3) by (auto simp: child_path_def)
  from assms(1) show ?thesis
    unfolding parseTestFile_def Let_def rel dir
    by (auto split: if_splits)
qed

lemma parse_root_itself: "parseTestFile base base False = None"
  by (simp add: parseTestFile_def Let_def filepath_Rel_def filepath_Base_def)

lemma visit_file_succeeds:
  assumes ok: "forest_ok base s" and n: "wf_name n" and d: "d \<noteq> ''.''"
    and dd: "d \<in> dom (map_of s)" and pd: "d \<noteq> [] \<longrightarrow> getParentPath d \<in> dom (map_of s)"
  shows "\<exists>s'. visit base (filepath_Join base (child_path d n), False) s = Inr s'
              \<and> dom (map_of s) \<subseteq> dom (map_of s')"
proof (cases "parseTestFile base (filepath_Join base (child_path d n)) False")
  case None
  then show ?thesis by (simp add: visit_not_test)
next
  case (Some test)
  have dir: "Dir test = d" using Some n d by (rule parse_Dir)
  from dd dir obtain suite where su: "map_of s (Dir test) = Some suite" by auto
  from ok su have "node_ok base (Dir test) suite" by (rule forest_ok_lookup)
  then have path: "Path suite = d" using dir by (simp add: node_ok_def)
  define bs where "bs = (case Base suite of None \<Rightarrow> test | Some b \<Rightarrow> mergeTest b test)"
  define s1 where "s1 = AList.update (Dir test) (suite\<lparr> Base := Some bs \<rparr>) s"
  have d1: "dom (map_of s1) = dom (map_of s)"
    using dd dir by (simp add: s1_def dom_map_of_update insert_absorb)
  show ?thesis
  proof (cases "d = []")
    case True
    with path have "Path suite = []" by simp
    from visit_root_file[OF Some su this]
    have "visit base (filepath_Join base (child_path d n), False) s = Inr s1"
      by (simp add: s1_def bs_def)
    with d1 show ?thesis by simp
  next
    case False
    with path have pne: "Path suite \<noteq> []" by simp
    define pp where "pp = getParentPath (Path suite)"
    from pd False path have "pp \<in> dom (map_of s1)" by (simp add: pp_def d1)
    then obtain parent where pa: "map_of s1 pp = Some parent" by auto
    define s2 where "s2 = (if Base suite = None then modify pp (\<lambda>p. p\<lparr> refs := refs p + 1 \<rparr>) s1 else s1)"
    define s3 where "s3 = modify pp
            (\<lambda>p. p\<lparr> Tests := AList.update (Name test) (Path suite) (Tests p),
                    Children := AList.update (Name test) (Dir test) (Children p) \<rparr>) s2"
    define r where "r = (if 0 \<le> Seq bs
          then (if Base suite = None then modify (Dir test) (\<lambda>c. c\<lparr> refs := refs c + 1 \<rparr>) s3 else s3)
          else s2)"
    have v: "visit base (filepath_Join base (child_path d n), False) s = Inr r"
      unfolding r_def
      by (rule visit_child_file[OF Some su pne bs_def s1_def pp_def pa s2_def s3_def])
    have "dom (map_of r) = dom (map_of s1)"
      by (simp add: r_def s3_def s2_def dom_modify)
    with v d1 show ?thesis by simp
  qed
qed

lemma visit_dir_succeeds:
  assumes "rel \<noteq> ''.''"
  shows "\<exists>s'. visit base (filepath_Join base rel, True) s = Inr s'
              \<and> dom (map_of s') = insert rel (dom (map_of s))"
proof -
  have "(if filepath_Rel base (filepath_Join base rel) = ''.'' then []
         else filepath_Rel base (filepath_Join base rel)) = rel"
  proof (cases "rel = []")
    case True
    then show ?thesis by (simp add: filepath_Join_def filepath_Rel_def)
  next
    case False
    then show ?thesis using assms by (simp add: filepath_Rel_Join)
  qed
  then show ?thesis by (simp add: visit_dir dom_map_of_update)
qed

lemma ready_not_dot:
  assumes "ready s rel"
  shows "rel \<noteq> ''.''"
proof -
  from assms consider "rel = []" | d n where "rel = child_path d n" "wf_name n"
    unfolding ready_def by blast
  then show ?thesis
  proof cases
    case 1
    then show ?thesis by simp
  next
    case 2
    then show ?thesis using child_path_not_dot[OF 2(2), of d] by simp
  qed
qed

lemma walk_tree_succeeds:
  "wf_tree t \<Longrightarrow> forest_ok base s \<Longrightarrow> ready s rel \<Longrightarrow>
   \<exists>s'. walk_all base (Walk (filepath_Join base rel) t) s = Inr s'
        \<and> forest_ok base s' \<and> dom (map_of s) \<subseteq> dom (map_of s')"
proof (induction t arbitrary: s rel)
  case FsFile
  show ?case
  proof (cases "rel = []")
    case True
    then have "visit base (filepath_Join base rel, False) s = Inr s"
      by (simp add: filepath_Join_def visit_not_test parse_root_itself)
    then show ?thesis using FsFile.prems(2) by simp
  next
    case False
    with FsFile.prems(3) obtain d n where r: "rel = child_path d n" and n: "wf_name n"
      and d: "d \<noteq> ''.''" "d \<in> dom (map_of s)" "d \<noteq> [] \<longrightarrow> getParentPath d \<in> dom (map_of s)"
      by (auto simp: ready_def)
    from visit_file_succeeds[OF FsFile.prems(2) n d]
    obtain s' where v: "visit base (filepath_Join base rel, False) s = Inr s'"
      and sub: "dom (map_of s) \<subseteq> dom (map_of s')" unfolding r by blast
    from FsFile.prems(2) v have "forest_ok base s'" by (rule visit_ok)
    with v sub show ?thesis by simp
  qed
next
  case (FsDir entries)
  have rd: "rel \<noteq> ''.''" using FsDir.prems(3) by (rule ready_not_dot)
  from visit_dir_succeeds[OF rd]
  obtain s0 where v0: "visit base (filepath_Join base rel, True) s = Inr s0"
    and d0: "dom (map_of s0) = insert rel (dom (map_of s))" by blast
  have ok0: "forest_ok base s0" using FsDir.prems(2) v0 by (rule visit_ok)
  have par: "getParentPath rel \<in> dom (map_of s)" if "rel \<noteq> []"
  proof -
    from FsDir.prems(3) that obtain d n where "rel = child_path d n" "wf_name n" "d \<in> dom (map_of s)"
      unfolding ready_def by blast
    then show ?thesis by (simp add: getParentPath_child)
  qed
  have entries_ok:
    "set es \<subseteq> set entries \<Longrightarrow> forest_ok base s1 \<Longrightarrow> dom (map_of s0) \<subseteq> dom (map_of s1) \<Longrightarrow>
       \<exists>s'. walk_all base
               (concat (map (\<lambda>e. Walk (filepath_Join (filepath_Join base rel) (fst e)) (snd e)) es)) s1 = Inr s'
            \<and> forest_ok base s' \<and> dom (map_of s1) \<subseteq> dom (map_of s')" for es s1
  proof (induction es arbitrary: s1)
    case Nil
    then show ?case by simp
  next
    case (Cons e es)
    from Cons.prems(1) have mem: "e \<in> set entries" by simp
    with FsDir.prems(1) have wn: "wf_name (fst e)" and wt: "wf_tree (snd e)" by auto
    have in1: "rel \<in> dom (map_of s1)" using d0 Cons.prems(3) by blast
    have "getParentPath rel \<in> dom (map_of s1)" if "rel \<noteq> []"
      using par[OF that] d0 Cons.prems(3) by blast
    with wn rd in1 have "child_path rel (fst e) = child_path rel (fst e) \<and> wf_name (fst e) \<and> rel \<noteq> ''.''
        \<and> rel \<in> dom (map_of s1) \<and> (rel \<noteq> [] \<longrightarrow> getParentPath rel \<in> dom (map_of s1))"
      by blast
    then have "ready s1 (child_path rel (fst e))"
      unfolding ready_def by blast
    moreover have "snd e \<in> Basic_BNFs.snds e" by (cases e) simp
    ultimately have "\<exists>s2. walk_all base (Walk (filepath_Join base (child_path rel (fst e))) (snd e)) s1 = Inr s2
        \<and> forest_ok base s2 \<and> dom (map_of s1) \<subseteq> dom (map_of s2)"
      using wt Cons.prems(2) mem by (intro FsDir.IH)
    then obtain s2 where
      w: "walk_all base (Walk (filepath_Join base (child_path rel (fst e))) (snd e)) s1 = Inr s2"
      and ok2: "forest_ok base s2" and sub: "dom (map_of s1) \<subseteq> dom (map_of s2)"
      by blast
    have j: "filepath_Join (filepath_Join base rel) (fst e) = filepath_Join base (child_path rel (fst e))"
      using wn by (intro Join_child) (simp add: wf_name_def)
    from Cons.prems(1) have "set es \<subseteq> set entries" by simp
    moreover have "dom (map_of s0) \<subseteq> dom (map_of s2)" using Cons.prems(3) sub by blast
    ultimately obtain s' where
      "walk_all base
         (concat (map (\<lambda>e. Walk (filepath_Join (filepath_Join base rel) (fst e)) (snd e)) es)) s2 = Inr s'"
      "forest_ok base s'" "dom (map_of s2) \<subseteq> dom (map_of s')"
      using Cons.IH[OF _ ok2] by blast
    then show ?case using w sub by (auto simp: walk_all_append j)
  qed
  from entries_ok[OF subset_refl ok0 subset_refl]
  obtain s' where
    "walk_all base
       (concat (map (\<lambda>e. Walk (filepath_Join (filepath_Join base rel) (fst e)) (snd e)) entries)) s0 = Inr s'"
    "forest_ok base s'" "dom (map_of s0) \<subseteq> dom (map_of s')" by blast
  then show ?case using v0 d0 by auto
qed

lemma DiscoverTests_succeeds:
  assumes "wf_tree tree"
  shows "\<exists>f. DiscoverTests base tree = Inr f"
proof -
  have "forest_ok base []" by (simp add: forest_ok_def)
  moreover have "ready [] []" by (simp add: ready_def)
  ultimately obtain s where "walk_all base (Walk (filepath_Join base []) tree) [] = Inr s"
    using walk_tree_succeeds[OF assms] by blast
  then show ?thesis by (simp add: DiscoverTests_def filepath_Join_def)
qed

lemma skipped_excluded:
  assumes "DiscoverTests base tree = Inr f" and "skipped p"
  shows "map_of f p = None
         \<and> (\<forall>k suite b fname. map_of f k = Some suite \<and> Base suite = Some b
              \<longrightarrow> filepath_Join base (p @ sep # fname)
                    \<notin> {Request b, Response b, Variables b, Transform b})"
proof
  show "map_of f p = None"
  proof (rule ccontr)
    assume "map_of f p \<noteq> None"
    then obtain suite where su: "map_of f p = Some suite" by auto
    from DiscoverTests_ok[OF assms(1)] su have "node_ok base p suite" by (rule forest_ok_lookup)
    moreover have "Base suite \<noteq> None \<or> Tests suite \<noteq> []"
      using assms(1) su by (rule DiscoverTests_not_pruned)
    ultimately have "\<not> strings_Contains (filepath_Join base p) ''/SKIP''"
      by (auto simp: node_ok_def)
    with skipped_Contains[OF assms(2)] show False by simp
  qed
  show "\<forall>k suite b fname. map_of f k = Some suite \<and> Base suite = Some b
              \<longrightarrow> filepath_Join base (p @ sep # fname)
                    \<notin> {Request b, Response b, Variables b, Transform b}"
  proof (intro allI impI)
    fix k suite b fname
    assume a: "map_of f k = Some suite \<and> Base suite = Some b"
    from DiscoverTests_ok[OF assms(1)] a have "node_ok base k suite" by (auto intro: forest_ok_lookup)
    with a have "clean_case b" by (simp add: node_ok_def)
    moreover have "strings_Contains (filepath_Join base (p @ sep # fname)) ''/SKIP''"
      using assms(2) by (intro skipped_Contains skipped_below)
    ultimately show "filepath_Join base (p @ sep # fname) \<notin> {Request b, Response b, Variables b, Transform b}"
      by (auto simp: clean_case_def)
  qed
qed

text \<open>
  Claim C5.  For every directory tree (whose entries have the names a directory can hold)
  \<open>DiscoverTests\<close> returns a forest, and if a relative path has a segment that equals
  \<open>SKIP\<close> or begins with \<open>SKIP\<close> (it is such a directory or a descendant of one), that
  forest has no node for it, and no file beneath it is the request, response, variables or
  transform file of any base case in the forest.
\<close>

theorem DiscoverTests_excludes_SKIP:
  assumes "wf_tree tree" and "skipped p"
  shows "\<exists>f. DiscoverTests base tree = Inr f
           \<and> map_of f p = None
           \<and> (\<forall>k suite b fname. map_of f k = Some suite \<and> Base suite = Some b
                \<longrightarrow> filepath_Join base (p @ sep # fname)
                      \<notin> {Request b, Response b, Variables b, Transform b})"
proof -
  from DiscoverTests_succeeds[OF assms(1)] obtain f where f: "DiscoverTests base tree = Inr f"
    by blast
  from skipped_excluded[OF f assms(2)] f show ?thesis by blast
qed

theorem DiscoverTests_excludes_SKIP_witness:
  "wf_tree skip_tree \<and> skipped ''SKIP_old'' \<and> skipped ''SKIP_old/001_q''
   \<and> DiscoverTests ''/r'' skip_tree = Inr (forest_of ''/r'' skip_tree)
   \<and> map_of (forest_of ''/r'' skip_tree) ''SKIP_old'' = None
   \<and> map_of (forest_of ''/r'' skip_tree) ''SKIP_old/001_q'' = None
   \<and> map fst (forest_of ''/r'' skip_tree) = [[], ''001_First'']
   \<and> map_option Base (map_of (forest_of ''/r'' skip_tree) []) = Some (Some root_case)
   \<and> ''/r/SKIP_old/request.gql'' \<notin> {Request root_case, Response root_case,
         Variables root_case, Transform root_case}"
proof -
  have w: "wf_tree skip_tree" by code_simp
  have k: "skipped ''SKIP_old''" "skipped ''SKIP_old/001_q''" by code_simp+
  have d: "DiscoverTests ''/r'' skip_tree = Inr (forest_of ''/r'' skip_tree)" by code_simp
  have m: "map fst (forest_of ''/r'' skip_tree) = [[], ''001_First'']" by code_simp
  have r: "map_option Base (map_of (forest_of ''/r'' skip_tree) []) = Some (Some root_case)"
    by code_simp
  then obtain suite where su: "map_of (forest_of ''/r'' skip_tree) [] = Some suite \<and> Base suite = Some root_case"
    by auto
  have j: "filepath_Join ''/r'' (''SKIP_old'' @ sep # ''request.gql'') = ''/r/SKIP_old/request.gql''"
    by (simp add: filepath_Join_def sep_def)
  from DiscoverTests_excludes_SKIP[OF w k(1), of "''/r''"] d su
  have 1: "map_of (forest_of ''/r'' skip_tree) ''SKIP_old'' = None
      \<and> filepath_Join ''/r'' (''SKIP_old'' @ sep # ''request.gql'')
      \<notin> {Request root_case, Response root_case, Variables root_case, Transform root_case}"
    by (simp only: sum.inject) blast
  from DiscoverTests_excludes_SKIP[OF w k(2), of "''/r''"] d
  have 2: "map_of (forest_of ''/r'' skip_tree) ''SKIP_old/001_q'' = None"
    by (simp only: sum.inject) blast
  from 1 2 j w k d m r show ?thesis by simp
qed

section \<open>Merging: the fragments of one directory\<close>















section \<open>Ordering: how often the start suite is emitted\<close>








section \<open>Ordering: unsequenced siblings\<close>

text \<open>
  Claim C6 says that the ordering of a shared parent suite emits its unsequenced child
  directories after all sequenced ones, in ascending order of their names.  The code does not:
  in the scenario the unsequenced directory \<open>Extra\<close> is a valid sibling of the sequenced
  \<open>001_First\<close> and \<open>002_Second\<close>, and the ordering of the root emits only the root and the two
  sequenced children; in a suite whose children are all unsequenced the ordering of the root
  emits the root's own base case and nothing else.
\<close>

theorem unsequenced_siblings_not_emitted:
  "map_option Base (map_of (forest_of ''/r'' scenario_tree) ''Extra'')
       = Some (Some (case_at ''Extra'' ''Extra'' (- 1)))
   \<and> IsValid (case_at ''Extra'' ''Extra'' (- 1)) \<and> Seq (case_at ''Extra'' ''Extra'' (- 1)) < 0
   \<and> getParentPath ''Extra'' = [] \<and> getParentPath ''001_First'' = []
   \<and> GetOrderedTests id (forest_of ''/r'' scenario_tree) []
       = [root_case, case_at ''001_First'' ''001_First'' 1, case_at ''002_Second'' ''002_Second'' 2]
   \<and> case_at ''Extra'' ''Extra'' (- 1) \<notin> set (GetOrderedTests id (forest_of ''/r'' scenario_tree) [])
   \<and> map_option Base (map_of (forest_of ''/r'' errors_tree) ''BAD_REQUEST'')
       = Some (Some (case_at ''BAD_REQUEST'' ''BAD_REQUEST'' (- 1)))
   \<and> map_option Base (map_of (forest_of ''/r'' errors_tree) ''DATE_PARSE_ERROR'')
       = Some (Some (case_at ''DATE_PARSE_ERROR'' ''DATE_PARSE_ERROR'' (- 1)))
   \<and> GetOrderedTests id (forest_of ''/r'' errors_tree) [] = [root_case]"
  by code_simp

end
